theory Spec2Isabelle
  imports Main "HOL-Library.Word"
begin

section \<open>Arduino strings\<close>

text \<open>
  The firmware (\<^verbatim>\<open>src/main.cpp\<close>) keeps its configuration in Arduino \<^verbatim>\<open>String\<close>
  objects. A \<^verbatim>\<open>String\<close> is modelled as a \<^typ>\<open>string\<close> (a list of bytes). The library
  operations the firmware calls are written out below with the behaviour of the
  Arduino core: \<^verbatim>\<open>trim()\<close> removes the characters for which C's \<^verbatim>\<open>isspace\<close> holds from
  both ends, \<^verbatim>\<open>indexOf(ch, from)\<close> returns \<open>-1\<close> when the character does not occur at
  or after \<^verbatim>\<open>from\<close>, and \<^verbatim>\<open>substring(left, right)\<close> clips its bounds to the length.
  Indices are \<^verbatim>\<open>int\<close> in the source; a \<^verbatim>\<open>String\<close> lives in the RAM of the
  microcontroller, so its length stays far below \<open>2^31\<close> and the indices are
  modelled without wrap-around.
\<close>

definition isspace :: "char \<Rightarrow> bool" where
  "isspace c = (c = CHR '' '' \<or> c = CHR 0x09 \<or> c = CHR 0x0A \<or> c = CHR 0x0B
                \<or> c = CHR 0x0C \<or> c = CHR 0x0D)"

definition trim :: "string \<Rightarrow> string" where
  "trim s = rev (dropWhile isspace (rev (dropWhile isspace s)))"

definition indexOf :: "char \<Rightarrow> string \<Rightarrow> nat \<Rightarrow> int" where
  "indexOf ch s fromIndex =
     (if length s \<le> fromIndex then - 1
      else if ch \<in> set (drop fromIndex s)
           then int (fromIndex + length (takeWhile (\<lambda>x. x \<noteq> ch) (drop fromIndex s)))
           else - 1)"

definition substring :: "string \<Rightarrow> nat \<Rightarrow> nat \<Rightarrow> string" where
  "substring s left right =
     (let l = (if right < left then right else left);
          r = (if right < left then left else right)
      in if length s \<le> l then []
         else take ((if length s < r then length s else r) - l) (drop l s))"

definition substring_from :: "string \<Rightarrow> nat \<Rightarrow> string" where
  "substring_from s left = substring s left (length s)"

text \<open>\<^verbatim>\<open>String::equalsIgnoreCase\<close> compares the two strings after \<^verbatim>\<open>tolower\<close>.\<close>

definition tolower :: "char \<Rightarrow> char" where
  "tolower c = (if (65::nat) \<le> of_char c \<and> of_char c \<le> (90::nat)
                then char_of (of_char c + (32::nat)) else c)"

definition equalsIgnoreCase :: "string \<Rightarrow> string \<Rightarrow> bool" where
  "equalsIgnoreCase a b = (map tolower a = map tolower b)"

text \<open>A string is trimmed when \<^verbatim>\<open>trim()\<close> would leave it as it is.\<close>

definition is_trimmed :: "string \<Rightarrow> bool" where
  "is_trimmed s = (trim s = s)"

section \<open>Header parsing in \<^verbatim>\<open>sendWebhookRequest\<close>\<close>

text \<open>
  Lines 579-590: the body of the parsing loop for one line. The call
  \<^verbatim>\<open>http.addHeader(key, value)\<close> is modelled by returning the pair; a line that adds
  no header returns the empty list.
\<close>

definition header_of_line :: "string \<Rightarrow> (string \<times> string) list" where
  "header_of_line l =
     (let line = trim l in
      if 0 < length line then
        (let colon = indexOf CHR '':'' line 0 in
         if 0 < colon then
           [(trim (substring line 0 (nat colon)), trim (substring_from line (nat (colon + 1))))]
         else [])
      else [])"

text \<open>
  Lines 574-592: the loop over \<^verbatim>\<open>webhookHeaders\<close>, with \<^verbatim>\<open>lineStart\<close> as the
  argument of the recursion.
\<close>

definition line_end :: "string \<Rightarrow> nat \<Rightarrow> nat" where
  "line_end h lineStart =
     (let lineEnd = indexOf CHR 0x0A h lineStart in
      if lineEnd = - 1 then length h else nat lineEnd)"

function parse_headers :: "string \<Rightarrow> nat \<Rightarrow> (string \<times> string) list" where
  "parse_headers h lineStart =
     (if lineStart < length h then
        header_of_line (substring h lineStart (line_end h lineStart))
          @ parse_headers h (line_end h lineStart + 1)
      else [])"
  by pat_completeness auto
termination
proof (relation "measure (\<lambda>(h, lineStart). length h - lineStart)")
  show "wf (measure (\<lambda>(h, lineStart). length h - lineStart))" by simp
next
  fix h :: string and lineStart :: nat
  assume "lineStart < length h"
  moreover from this have "lineStart \<le> line_end h lineStart"
    by (auto simp add: line_end_def indexOf_def Let_def)
  ultimately show "((h, line_end h lineStart + 1), (h, lineStart))
      \<in> measure (\<lambda>(h, lineStart). length h - lineStart)"
    by simp
qed

declare parse_headers.simps [simp del]

text \<open>
  The specification's reading of the input: the text split at every newline.
\<close>

function split_lines :: "string \<Rightarrow> string list" where
  "split_lines s =
     (if CHR 0x0A \<in> set s
      then takeWhile (\<lambda>x. x \<noteq> CHR 0x0A) s # split_lines (tl (dropWhile (\<lambda>x. x \<noteq> CHR 0x0A) s))
      else [s])"
  by pat_completeness auto
termination
proof (relation "measure length")
  show "wf (measure length)" by simp
next
  fix s :: string
  assume "CHR 0x0A \<in> set s"
  then have "dropWhile (\<lambda>x. x \<noteq> CHR 0x0A) s \<noteq> []" by simp
  then have "length (tl (dropWhile (\<lambda>x. x \<noteq> CHR 0x0A) s)) < length (dropWhile (\<lambda>x. x \<noteq> CHR 0x0A) s)"
    by (cases "dropWhile (\<lambda>x. x \<noteq> CHR 0x0A) s") simp_all
  also have "\<dots> \<le> length s" by (rule length_dropWhile_le)
  finally show "(tl (dropWhile (\<lambda>x. x \<noteq> CHR 0x0A) s), s) \<in> measure length" by simp
qed

declare split_lines.simps [simp del]


section \<open>Device state\<close>

text \<open>
  The target is an ESP32-C3: \<^verbatim>\<open>int\<close> and \<^verbatim>\<open>unsigned long\<close> are 32 bits wide. The counter
  \<^verbatim>\<open>pendingRequests\<close> (a \<^verbatim>\<open>volatile int\<close>) and the two \<^verbatim>\<open>millis()\<close> timestamps are
  32-bit words; the counter is read as a signed value (\<open>sint\<close>, \<open><s\<close>), the
  timestamps as unsigned ones, and all arithmetic wraps around.
\<close>

datatype wifi_mode_t = WIFI_MODE_NULL | WIFI_MODE_STA | WIFI_MODE_AP | WIFI_MODE_APSTA

datatype wl_status_t = WL_NO_SHIELD | WL_IDLE_STATUS | WL_NO_SSID_AVAIL | WL_SCAN_COMPLETED
  | WL_CONNECTED | WL_CONNECT_FAILED | WL_CONNECTION_LOST | WL_DISCONNECTED

datatype esp_sleep_wakeup_cause_t = ESP_SLEEP_WAKEUP_UNDEFINED | ESP_SLEEP_WAKEUP_GPIO
  | ESP_SLEEP_WAKEUP_TIMER | ESP_SLEEP_WAKEUP_OTHER

datatype pin_level = LOW | HIGH

datatype http_method = HTTP_GET | HTTP_POST | HTTP_OTHER

text \<open>
  The calls that \<^verbatim>\<open>setup\<close>, \<^verbatim>\<open>setupWiFi\<close>, \<^verbatim>\<open>setupAP\<close> and \<^verbatim>\<open>setupWebServer\<close> make on the
  radio, the servers and the clock, in the order in which they are made.
\<close>

datatype hw_call = WiFiMode wifi_mode_t | WiFiDisconnect bool | WiFiBegin string string
  | WiFiSetTxPower | WiFiSoftAP string | Delay nat | DnsStart | ServerBegin

record wifi_hw =
  wifiMode :: wifi_mode_t
  statusReads :: nat
  calls :: "hw_call list"
  serverStarted :: bool

record webhook_request =
  wh_method :: string
  wh_url :: string
  wh_headers :: "(string \<times> string) list"
  wh_body :: string

record http_request =
  req_method :: http_method
  req_uri :: string
  req_args :: "(string \<times> string) list"

text \<open>
  The global variables of lines 58-68, the persistent \<^verbatim>\<open>Preferences\<close> store (a map from
  keys to strings that survives a reboot), and what the firmware has sent: the responses of
  the configuration server (status code and content type; the HTML bodies are not modelled)
  and the webhook requests.
\<close>

record state =
  ssid :: string
  password :: string
  webhookUrl :: string
  webhookMethod :: string
  webhookHeaders :: string
  webhookPayload :: string
  configSaved :: bool
  pendingRequests :: "32 word"
  requestInProgress :: bool
  lastButtonPressTime :: "32 word"
  lastActivityTime :: "32 word"
  preferences :: "string \<rightharpoonup> string"
  interruptAttached :: bool
  wifi :: wifi_hw
  responses :: "(nat \<times> string) list"
  sent :: "webhook_request list"

definition MAX_CONNECTION_ATTEMPTS :: nat where "MAX_CONNECTION_ATTEMPTS = 10"
definition CONNECTION_RETRY_DELAY :: nat where "CONNECTION_RETRY_DELAY = 1000"
definition MAX_FULL_CONNECTION_ATTEMPTS :: nat where "MAX_FULL_CONNECTION_ATTEMPTS = 3"
definition SLEEP_TIMEOUT :: "32 word" where "SLEEP_TIMEOUT = 60000"
definition DEBOUNCE_TIME :: "32 word" where "DEBOUNCE_TIME = 300"
definition AP_SSID_BASE :: string where "AP_SSID_BASE = ''GrotBot-''"

text \<open>The state after power-on or wake-up, before \<^verbatim>\<open>setup\<close> runs: RAM is initialised,
  the store keeps its contents.\<close>

definition power_on :: "(string \<rightharpoonup> string) \<Rightarrow> state" where
  "power_on prefs =
     \<lparr>ssid = [], password = [], webhookUrl = [], webhookMethod = ''GET'',
      webhookHeaders = [], webhookPayload = [], configSaved = False,
      pendingRequests = 0, requestInProgress = False,
      lastButtonPressTime = 0, lastActivityTime = 0,
      preferences = prefs, interruptAttached = False,
      wifi = \<lparr>wifiMode = WIFI_MODE_NULL, statusReads = 0, calls = [], serverStarted = False\<rparr>,
      responses = [], sent = []\<rparr>"

section \<open>The button interrupt\<close>

text \<open>Lines 197-212. \<^verbatim>\<open>currentTime\<close> is the value \<^verbatim>\<open>millis()\<close> returns in the handler.\<close>

definition buttonISR :: "32 word \<Rightarrow> state \<Rightarrow> state" where
  "buttonISR currentTime s =
     (if DEBOUNCE_TIME < currentTime - lastButtonPressTime s
      then s\<lparr>pendingRequests := pendingRequests s + 1,
             lastButtonPressTime := currentTime,
             lastActivityTime := currentTime\<rparr>
      else s)"

text \<open>A sequence of triggers, handled one after the other.\<close>

primrec triggers :: "32 word list \<Rightarrow> state \<Rightarrow> state" where
  "triggers [] s = s"
| "triggers (t # ts) s = triggers ts (buttonISR t s)"

section \<open>The configuration server\<close>

text \<open>\<^verbatim>\<open>server.hasArg\<close> and \<^verbatim>\<open>server.arg\<close>: the first argument of that name, the empty
  string when there is none.\<close>

definition hasArg :: "http_request \<Rightarrow> string \<Rightarrow> bool" where
  "hasArg r name = (map_of (req_args r) name \<noteq> None)"

definition arg :: "http_request \<Rightarrow> string \<Rightarrow> string" where
  "arg r name = (case map_of (req_args r) name of Some v \<Rightarrow> v | None \<Rightarrow> [])"

definition getString :: "(string \<rightharpoonup> string) \<Rightarrow> string \<Rightarrow> string \<Rightarrow> string" where
  "getString prefs key defaultValue = (case prefs key of Some v \<Rightarrow> v | None \<Rightarrow> defaultValue)"

text \<open>Lines 403-463.\<close>

definition handleRoot :: "32 word \<Rightarrow> state \<Rightarrow> state" where
  "handleRoot now s = s\<lparr>lastActivityTime := now, responses := responses s @ [(200, ''text/html'')]\<rparr>"

text \<open>Lines 465-524.\<close>

definition handleSave :: "32 word \<Rightarrow> http_request \<Rightarrow> state \<Rightarrow> state" where
  "handleSave now r s =
     (if hasArg r ''ssid'' \<and> hasArg r ''password'' \<and> hasArg r ''webhook'' then
        s\<lparr>lastActivityTime := now,
          ssid := trim (arg r ''ssid''),
          password := trim (arg r ''password''),
          webhookUrl := trim (arg r ''webhook''),
          webhookMethod := trim (arg r ''webhook_method''),
          webhookHeaders := trim (arg r ''webhook_headers''),
          webhookPayload := trim (arg r ''webhook_payload''),
          preferences := (preferences s)
            (''ssid'' \<mapsto> trim (arg r ''ssid''),
             ''password'' \<mapsto> trim (arg r ''password''),
             ''webhook'' \<mapsto> trim (arg r ''webhook''),
             ''webhook_method'' \<mapsto> trim (arg r ''webhook_method''),
             ''webhook_headers'' \<mapsto> trim (arg r ''webhook_headers''),
             ''webhook_payload'' \<mapsto> trim (arg r ''webhook_payload'')),
          responses := responses s @ [(200, ''text/html'')],
          configSaved := True\<rparr>
      else
        s\<lparr>lastActivityTime := now, responses := responses s @ [(400, ''text/plain'')]\<rparr>)"

text \<open>Lines 394-397, the handler for every other request.\<close>

definition handleNotFound :: "state \<Rightarrow> state" where
  "handleNotFound s = s\<lparr>responses := responses s @ [(302, ''text/plain'')]\<rparr>"

text \<open>The routes registered in lines 382-391.\<close>

definition root_paths :: "string list" where
  "root_paths = [''/'', ''/generate_204'', ''/connecttest.txt'', ''/redirect'',
     ''/hotspot-detect.html'', ''/canonical.html'', ''/success.txt'']"

text \<open>\<^verbatim>\<open>server.handleClient()\<close> with the request that is waiting, if there is one. A server
  that was never started serves nothing.\<close>

definition handleClient :: "32 word \<Rightarrow> http_request option \<Rightarrow> state \<Rightarrow> state" where
  "handleClient now client s =
     (case client of
        None \<Rightarrow> s
      | Some r \<Rightarrow>
          if \<not> serverStarted (wifi s) then s
          else if req_method r = HTTP_GET \<and> req_uri r \<in> set root_paths then handleRoot now s
          else if req_method r = HTTP_POST \<and> req_uri r = ''/save'' then handleSave now r s
          else handleNotFound s)"


section \<open>The connection manager\<close>

text \<open>
  \<^verbatim>\<open>WiFi.status()\<close> is an input from the environment. It is given as a function from the
  number of earlier reads to the status returned, so that every read may see a different
  status; \<open>statusReads\<close> counts the reads.
\<close>

definition call :: "hw_call list \<Rightarrow> wifi_hw \<Rightarrow> wifi_hw" where
  "call cs w = w\<lparr>calls := calls w @ cs\<rparr>"

definition WiFi_status :: "(nat \<Rightarrow> wl_status_t) \<Rightarrow> wifi_hw \<Rightarrow> wl_status_t" where
  "WiFi_status st w = st (statusReads w)"

definition read_status :: "wifi_hw \<Rightarrow> wifi_hw" where
  "read_status w = w\<lparr>statusReads := Suc (statusReads w)\<rparr>"

text \<open>
  Lines 287-302, the inner loop: the status is read in the loop condition, and once more
  for the diagnostic line when \<^verbatim>\<open>attempts % 3 == 0\<close>. The result is the final value of
  \<^verbatim>\<open>attempts\<close> and the hardware state.
\<close>

function wait_connected :: "(nat \<Rightarrow> wl_status_t) \<Rightarrow> nat \<Rightarrow> wifi_hw \<Rightarrow> nat \<times> wifi_hw" where
  "wait_connected st attempts w =
     (if WiFi_status st w \<noteq> WL_CONNECTED \<and> attempts < MAX_CONNECTION_ATTEMPTS then
        wait_connected st (attempts + 1)
          (if attempts mod 3 = 0
           then read_status (call [Delay CONNECTION_RETRY_DELAY] (read_status w))
           else call [Delay CONNECTION_RETRY_DELAY] (read_status w))
      else (attempts, read_status w))"
  by pat_completeness auto
termination
  by (relation "measure (\<lambda>(st, attempts, w). MAX_CONNECTION_ATTEMPTS - attempts)") auto

declare wait_connected.simps [simp del]

text \<open>
  Lines 266-320, the outer loop from \<^verbatim>\<open>fullAttempt\<close> on. The result is \<open>True\<close> when the
  function returned at line 308, \<open>False\<close> when the loop ran out.
\<close>

function connect_cycles ::
  "(nat \<Rightarrow> wl_status_t) \<Rightarrow> string \<Rightarrow> string \<Rightarrow> nat \<Rightarrow> wifi_hw \<Rightarrow> bool \<times> wifi_hw" where
  "connect_cycles st ss pw fullAttempt w =
     (if fullAttempt < MAX_FULL_CONNECTION_ATTEMPTS then
        (let w1 = call [WiFiDisconnect False, Delay 1000, WiFiBegin ss pw, WiFiSetTxPower] w;
             w2 = snd (wait_connected st 0 w1)
         in if WiFi_status st w2 = WL_CONNECTED then (True, read_status w2)
            else connect_cycles st ss pw (fullAttempt + 1)
                   (if fullAttempt < MAX_FULL_CONNECTION_ATTEMPTS - 1
                    then call [Delay 3000] (read_status (read_status w2))
                    else read_status (read_status w2)))
      else (False, w))"
  by pat_completeness auto
termination
  by (relation "measure (\<lambda>(st, ss, pw, fullAttempt, w). MAX_FULL_CONNECTION_ATTEMPTS - fullAttempt)")
     auto

declare connect_cycles.simps [simp del]

text \<open>\<^verbatim>\<open>String(random(1000, 9999))\<close>: the decimal digits of the number.\<close>

fun String_of_nat :: "nat \<Rightarrow> string" where
  "String_of_nat n =
     (if n < 10 then [char_of (48 + n)]
      else String_of_nat (n div 10) @ [char_of (48 + n mod 10)])"

declare String_of_nat.simps [simp del]

text \<open>
  Lines 330-378. \<open>rnd\<close> is the value of \<^verbatim>\<open>random(1000, 9999)\<close>, \<open>apStarted\<close> the result
  of the first \<^verbatim>\<open>WiFi.softAP\<close> call.
\<close>

definition setupAP :: "nat \<Rightarrow> bool \<Rightarrow> wifi_hw \<Rightarrow> wifi_hw" where
  "setupAP rnd apStarted w =
     call ([WiFiDisconnect True, Delay 500, WiFiMode WIFI_MODE_NULL, Delay 100,
            WiFiMode WIFI_MODE_AP, Delay 500,
            WiFiSoftAP (AP_SSID_BASE @ String_of_nat rnd), WiFiSetTxPower]
           @ (if apStarted then [] else [Delay 1000, WiFiSoftAP (AP_SSID_BASE @ String_of_nat rnd)])
           @ [DnsStart])
       (w\<lparr>wifiMode := WIFI_MODE_AP\<rparr>)"

text \<open>Lines 380-401.\<close>

definition setupWebServer :: "wifi_hw \<Rightarrow> wifi_hw" where
  "setupWebServer w = call [ServerBegin] (w\<lparr>serverStarted := True\<rparr>)"

text \<open>Lines 259-326.\<close>

definition setupWiFi ::
  "(nat \<Rightarrow> wl_status_t) \<Rightarrow> string \<Rightarrow> string \<Rightarrow> nat \<Rightarrow> bool \<Rightarrow> wifi_hw \<Rightarrow> wifi_hw" where
  "setupWiFi st ss pw rnd apStarted w =
     (let r = connect_cycles st ss pw 0
                (call [WiFiMode WIFI_MODE_STA, Delay 100] (w\<lparr>wifiMode := WIFI_MODE_STA\<rparr>))
      in if fst r then snd r else setupWebServer (setupAP rnd apStarted (snd r)))"

section \<open>Boot\<close>

text \<open>What \<^verbatim>\<open>setup\<close> reads from its environment.\<close>

record boot_env =
  wakeup_reason :: esp_sleep_wakeup_cause_t
  bootMillis :: "32 word"
  buttonState :: pin_level
  wifiStatus :: "nat \<Rightarrow> wl_status_t"
  randomValue :: nat
  softAPStarted :: bool

text \<open>Lines 161-172: the configuration is read from the store; three of the six strings
  are trimmed.\<close>

definition load_config :: "state \<Rightarrow> state" where
  "load_config s =
     s\<lparr>ssid := trim (getString (preferences s) ''ssid'' []),
       password := trim (getString (preferences s) ''password'' []),
       webhookUrl := trim (getString (preferences s) ''webhook'' []),
       webhookMethod := getString (preferences s) ''webhook_method'' ''GET'',
       webhookHeaders := getString (preferences s) ''webhook_headers'' [],
       webhookPayload := getString (preferences s) ''webhook_payload'' []\<rparr>"

text \<open>Lines 83-195, the function \<^verbatim>\<open>setup\<close> (the name is a keyword of Isabelle).\<close>

definition setupDevice :: "boot_env \<Rightarrow> (string \<rightharpoonup> string) \<Rightarrow> state" where
  "setupDevice b prefs =
     (let s0 = power_on prefs;
          s1 = s0\<lparr>lastActivityTime := bootMillis b,
                  wifi := call [Delay 1000] (wifi s0)\<rparr>;
          s2 = (if wakeup_reason b = ESP_SLEEP_WAKEUP_GPIO
                then s1\<lparr>pendingRequests := pendingRequests s1 + 1\<rparr> else s1);
          s3 = (if wakeup_reason b \<noteq> ESP_SLEEP_WAKEUP_GPIO
                then s2\<lparr>interruptAttached := True, wifi := call [Delay 100] (wifi s2)\<rparr>
                else s2\<lparr>interruptAttached := True\<rparr>);
          s4 = load_config s3
      in if buttonState b = LOW then
           s4\<lparr>wifi := setupWebServer (setupAP (randomValue b) (softAPStarted b) (wifi s4))\<rparr>
         else if 0 < length (ssid s4) \<and> 0 < length (password s4) then
           s4\<lparr>wifi := setupWiFi (wifiStatus b) (ssid s4) (password s4)
                        (randomValue b) (softAPStarted b) (wifi s4)\<rparr>
         else
           s4\<lparr>wifi := setupWebServer (setupAP (randomValue b) (softAPStarted b) (wifi s4))\<rparr>)"

section \<open>The main loop as a machine\<close>

text \<open>
  The main thread and the interrupt handler share the global variables. To follow every
  interleaving, \<^verbatim>\<open>loop\<close>, \<^verbatim>\<open>sendWebhookRequest\<close> and \<^verbatim>\<open>goToSleep\<close> are cut into steps, one
  per statement that reads or writes shared state; a control point is named after the
  source line of the statement that runs next (\<open>L\<close> in \<^verbatim>\<open>loop\<close>, \<open>S\<close> in
  \<^verbatim>\<open>sendWebhookRequest\<close>, \<open>G\<close> in \<^verbatim>\<open>goToSleep\<close>). The decrement of line 235 on a volatile
  variable is a load and a store, with the loaded value in \<open>tmp\<close>. A statement that
  takes time, such as \<^verbatim>\<open>server.handleClient()\<close> or the HTTP request of lines 566-614, is
  one step: the only variable it shares with the handler is \<^verbatim>\<open>lastActivityTime\<close>, which both
  only write, so an interrupt taken during it has the effect of an interrupt taken before
  or after it. \<open>Asleep\<close> and \<open>Restarted\<close> end a power cycle.
\<close>

datatype pc = L215 | L217 | L218 | L219 | L222 | L224 | L225 | L230 | L234 | L235 | L235_store
  | L238 | L241 | L246 | L247 | L248 | L250 | L256
  | S557 | S558 | S560 | S562 | S566 | S615 | S616
  | G621 | G625 | G629 | G639 | G640 | Asleep | Restarted

text \<open>What a step of the main thread reads from its environment: the clock, the WiFi
  status and the HTTP request waiting at the configuration server.\<close>

record env =
  now :: "32 word"
  status :: wl_status_t
  client :: "http_request option"

record config =
  glob :: state
  pc :: pc
  currentMode :: wifi_mode_t
  tmp :: "32 word"

text \<open>Lines 566-614: the request that is built and sent. The response is only printed.\<close>

definition webhook_of :: "state \<Rightarrow> webhook_request" where
  "webhook_of s =
     (if equalsIgnoreCase (webhookMethod s) ''POST''
      then \<lparr>wh_method = ''POST'', wh_url = webhookUrl s,
            wh_headers = parse_headers (webhookHeaders s) 0, wh_body = webhookPayload s\<rparr>
      else \<lparr>wh_method = ''GET'', wh_url = webhookUrl s,
            wh_headers = parse_headers (webhookHeaders s) 0, wh_body = []\<rparr>)"

definition goto :: "pc \<Rightarrow> config \<Rightarrow> config" where
  "goto l c = c\<lparr>pc := l\<rparr>"

definition main_step :: "env \<Rightarrow> config \<Rightarrow> config" where
  "main_step e c =
     (let s = glob c in
      case pc c of
        L215 \<Rightarrow> c\<lparr>currentMode := wifiMode (wifi s), pc := L217\<rparr>
      | L217 \<Rightarrow> if currentMode c = WIFI_MODE_AP
                   \<or> (currentMode c = WIFI_MODE_STA \<and> status e \<noteq> WL_CONNECTED)
                then goto L218 c else goto L230 c
      | L218 \<Rightarrow> goto L219 c
      | L219 \<Rightarrow> c\<lparr>glob := handleClient (now e) (client e) s, pc := L222\<rparr>
      | L222 \<Rightarrow> if configSaved s then goto L224 c else goto L256 c
      | L224 \<Rightarrow> goto L225 c
      | L225 \<Rightarrow> goto Restarted c
      | L230 \<Rightarrow> if currentMode c = WIFI_MODE_STA \<and> status e = WL_CONNECTED
                then goto L234 c else goto L256 c
      | L234 \<Rightarrow> if 0 <s pendingRequests s \<and> \<not> requestInProgress s
                then goto L235 c else goto L246 c
      | L235 \<Rightarrow> c\<lparr>tmp := pendingRequests s, pc := L235_store\<rparr>
      | L235_store \<Rightarrow> c\<lparr>glob := s\<lparr>pendingRequests := tmp c - 1\<rparr>, pc := L238\<rparr>
      | L238 \<Rightarrow> goto S557 c
      | S557 \<Rightarrow> c\<lparr>glob := s\<lparr>requestInProgress := True\<rparr>, pc := S558\<rparr>
      | S558 \<Rightarrow> c\<lparr>glob := s\<lparr>lastActivityTime := now e\<rparr>, pc := S560\<rparr>
      | S560 \<Rightarrow> if length (webhookUrl s) = 0 then goto S562 c else goto S566 c
      | S562 \<Rightarrow> c\<lparr>glob := s\<lparr>requestInProgress := False\<rparr>, pc := L241\<rparr>
      | S566 \<Rightarrow> c\<lparr>glob := s\<lparr>sent := sent s @ [webhook_of s]\<rparr>, pc := S615\<rparr>
      | S615 \<Rightarrow> c\<lparr>glob := s\<lparr>lastActivityTime := now e\<rparr>, pc := S616\<rparr>
      | S616 \<Rightarrow> c\<lparr>glob := s\<lparr>requestInProgress := False\<rparr>, pc := L241\<rparr>
      | L241 \<Rightarrow> c\<lparr>glob := s\<lparr>lastActivityTime := now e\<rparr>, pc := L246\<rparr>
      | L246 \<Rightarrow> if \<not> requestInProgress s \<and> pendingRequests s = 0
                then goto L247 c else goto L256 c
      | L247 \<Rightarrow> if SLEEP_TIMEOUT \<le> now e - lastActivityTime s
                then goto L248 c else goto L256 c
      | L248 \<Rightarrow> goto L250 c
      | L250 \<Rightarrow> goto G621 c
      | G621 \<Rightarrow> goto G625 c
      | G625 \<Rightarrow> c\<lparr>glob := s\<lparr>interruptAttached := False\<rparr>, pc := G629\<rparr>
      | G629 \<Rightarrow> goto G639 c
      | G639 \<Rightarrow> goto G640 c
      | G640 \<Rightarrow> goto Asleep c
      | L256 \<Rightarrow> goto L215 c
      | Asleep \<Rightarrow> c
      | Restarted \<Rightarrow> c)"

text \<open>
  The events of the system: the button interrupt with the clock value its handler reads, a
  step of the main thread, and a boot, which runs \<^verbatim>\<open>setup\<close> on the persistent store once
  the power cycle has ended. The handler runs only while the interrupt is attached and
  the processor is running. An interrupt taken during \<^verbatim>\<open>setup\<close> commutes with the rest
  of \<^verbatim>\<open>setup\<close>, which does not touch the variables of the handler after attaching it, and is
  delivered at the first step of \<^verbatim>\<open>loop\<close>.
\<close>

datatype event = Irq "32 word" | Tick env | Boot boot_env

definition halted :: "pc \<Rightarrow> bool" where
  "halted l = (l = Asleep \<or> l = Restarted)"

definition boot :: "boot_env \<Rightarrow> (string \<rightharpoonup> string) \<Rightarrow> config" where
  "boot b prefs = \<lparr>glob = setupDevice b prefs, pc = L215, currentMode = WIFI_MODE_NULL, tmp = 0\<rparr>"

fun step :: "event \<Rightarrow> config \<Rightarrow> config" where
  "step (Irq t) c =
     (if interruptAttached (glob c) \<and> \<not> halted (pc c)
      then c\<lparr>glob := buttonISR t (glob c)\<rparr> else c)"
| "step (Tick e) c = main_step e c"
| "step (Boot b) c = (if halted (pc c) then boot b (preferences (glob c)) else c)"

primrec run :: "event list \<Rightarrow> config \<Rightarrow> config" where
  "run [] c = c"
| "run (e # es) c = run es (step e c)"

text \<open>Control is inside \<^verbatim>\<open>sendWebhookRequest\<close>, between the assignment of line 557 and
  the assignment that clears the flag (line 562 or line 616).\<close>

definition in_flight :: "pc \<Rightarrow> bool" where
  "in_flight l = (l = S558 \<or> l = S560 \<or> l = S562 \<or> l = S566 \<or> l = S615 \<or> l = S616)"

text \<open>\<^verbatim>\<open>goToSleep\<close> has been invoked: control is in its body, or the device sleeps.\<close>

definition sleeping :: "pc \<Rightarrow> bool" where
  "sleeping l = (l = G621 \<or> l = G625 \<or> l = G629 \<or> l = G639 \<or> l = G640 \<or> l = Asleep)"

text \<open>The sleep path of lines 247-250 and beyond: the guard of line 246 has been passed.\<close>

definition sleep_path :: "pc \<Rightarrow> bool" where
  "sleep_path l = (l = L247 \<or> l = L248 \<or> l = L250 \<or> sleeping l)"


section \<open>The retry policy in the words of the specification\<close>

text \<open>
  One connection cycle with \<open>k\<close> polls: disconnect, wait, begin a fresh connection with
  the stored credentials at the fixed transmit power, then \<open>k\<close> waits of the retry delay.
  Consecutive cycles are separated by the back-off of three seconds.
\<close>

definition cycle_calls :: "string \<Rightarrow> string \<Rightarrow> nat \<Rightarrow> hw_call list" where
  "cycle_calls ss pw k =
     [WiFiDisconnect False, Delay 1000, WiFiBegin ss pw, WiFiSetTxPower]
       @ replicate k (Delay CONNECTION_RETRY_DELAY)"

fun cycles_calls :: "string \<Rightarrow> string \<Rightarrow> nat list \<Rightarrow> hw_call list" where
  "cycles_calls ss pw [] = []"
| "cycles_calls ss pw [k] = cycle_calls ss pw k"
| "cycles_calls ss pw (k # k' # ks) =
     cycle_calls ss pw k @ [Delay 3000] @ cycles_calls ss pw (k' # ks)"

text \<open>
  The status reads of a cycle. Every pass of the inner loop reads the status once in the
  loop condition and once more for the diagnostic line when \<^verbatim>\<open>attempts % 3 == 0\<close>; so in a
  cycle whose first read has index \<open>n\<close>, the loop condition of pass \<open>a\<close> reads
  \<open>guard_read n a\<close>. The check of line 304 reads next, \<open>check_read n k\<close> after \<open>k\<close> passes,
  and a failed cycle reads once more for its message, so that the next cycle starts at
  \<open>check_read n k + 2\<close>.
\<close>

primrec guard_read :: "nat \<Rightarrow> nat \<Rightarrow> nat" where
  "guard_read n 0 = n"
| "guard_read n (Suc a) = guard_read n a + (if a mod 3 = 0 then 2 else 1)"

definition check_read :: "nat \<Rightarrow> nat \<Rightarrow> nat" where
  "check_read n k = guard_read n k + 1"

text \<open>
  A cycle polls \<open>k\<close> times: the \<open>k\<close> is at most \<^verbatim>\<open>MAX_CONNECTION_ATTEMPTS\<close>, none of the
  loop conditions before pass \<open>k\<close> read \<^verbatim>\<open>WL_CONNECTED\<close>, and the loop ended because all
  passes were used or because its condition read \<^verbatim>\<open>WL_CONNECTED\<close>.
\<close>

definition polled :: "(nat \<Rightarrow> wl_status_t) \<Rightarrow> nat \<Rightarrow> nat \<Rightarrow> bool" where
  "polled st n k = (k \<le> MAX_CONNECTION_ATTEMPTS
     \<and> list_all (\<lambda>a. st (guard_read n a) \<noteq> WL_CONNECTED) [0..<k]
     \<and> (k = MAX_CONNECTION_ATTEMPTS \<or> st (guard_read n k) = WL_CONNECTED))"

text \<open>
  The cycles with poll counts \<open>ks\<close>, the first starting at read \<open>n\<close>, follow the status
  reads \<open>st\<close> and end connected or not: every cycle polls as above, the check of line 304
  did not read \<^verbatim>\<open>WL_CONNECTED\<close> in any cycle but the last, and it read \<^verbatim>\<open>WL_CONNECTED\<close> in
  the last cycle exactly when the outcome is connected. For given status reads this fixes
  the poll counts and the outcome.
\<close>

fun follows :: "(nat \<Rightarrow> wl_status_t) \<Rightarrow> nat \<Rightarrow> nat list \<Rightarrow> bool \<Rightarrow> bool" where
  "follows st n [] connected = False"
| "follows st n [k] connected =
     (polled st n k \<and> (st (check_read n k) = WL_CONNECTED) = connected)"
| "follows st n (k # k' # ks) connected =
     (polled st n k \<and> st (check_read n k) \<noteq> WL_CONNECTED
      \<and> follows st (check_read n k + 2) (k' # ks) connected)"

text \<open>The calls of the fall-back: \<^verbatim>\<open>setupAP\<close> followed by \<^verbatim>\<open>setupWebServer\<close>.\<close>

definition fallback_calls :: "nat \<Rightarrow> bool \<Rightarrow> hw_call list" where
  "fallback_calls rnd apStarted =
     [WiFiDisconnect True, Delay 500, WiFiMode WIFI_MODE_NULL, Delay 100,
      WiFiMode WIFI_MODE_AP, Delay 500,
      WiFiSoftAP (AP_SSID_BASE @ String_of_nat rnd), WiFiSetTxPower]
     @ (if apStarted then [] else [Delay 1000, WiFiSoftAP (AP_SSID_BASE @ String_of_nat rnd)])
     @ [DnsStart, ServerBegin]"

section \<open>Concrete inputs\<close>

text \<open>A cold boot with the button released and no network in reach.\<close>

definition cold_boot :: boot_env where
  "cold_boot = \<lparr>wakeup_reason = ESP_SLEEP_WAKEUP_UNDEFINED, bootMillis = 1000,
     buttonState = HIGH, wifiStatus = (\<lambda>n. WL_DISCONNECTED), randomValue = 4242,
     softAPStarted = True\<rparr>"

text \<open>A network that is in reach from the twenty-first status read on.\<close>

definition late_network :: "nat \<Rightarrow> wl_status_t" where
  "late_network n = (if n < 20 then WL_DISCONNECTED else WL_CONNECTED)"

text \<open>A wake-up by the button, with the network in reach from the sixth status read on.\<close>

definition button_wake :: boot_env where
  "button_wake = \<lparr>wakeup_reason = ESP_SLEEP_WAKEUP_GPIO, bootMillis = 1000,
     buttonState = HIGH, wifiStatus = (\<lambda>n. if n < 5 then WL_DISCONNECTED else WL_CONNECTED),
     randomValue = 4242, softAPStarted = True\<rparr>"

definition empty_store :: "string \<rightharpoonup> string" where
  "empty_store = Map.empty"

definition home_store :: "string \<rightharpoonup> string" where
  "home_store = [''ssid'' \<mapsto> ''Home'', ''password'' \<mapsto> ''secret1'',
     ''webhook'' \<mapsto> ''https://example.org/hook'', ''webhook_method'' \<mapsto> ''POST'',
     ''webhook_headers'' \<mapsto> ''Content-Type: application/json'',
     ''webhook_payload'' \<mapsto> ''{}'']"

text \<open>A store whose method was written with blanks around it.\<close>

definition padded_store :: "string \<rightharpoonup> string" where
  "padded_store = [''webhook_method'' \<mapsto> '' POST '']"

text \<open>A save request without the webhook URL, and one with the three required fields
  only.\<close>

definition save_without_webhook :: http_request where
  "save_without_webhook = \<lparr>req_method = HTTP_POST, req_uri = ''/save'',
     req_args = [(''ssid'', ''Home''), (''password'', ''secret1'')]\<rparr>"

definition save_required_only :: http_request where
  "save_required_only = \<lparr>req_method = HTTP_POST, req_uri = ''/save'',
     req_args = [(''ssid'', '' Home ''), (''password'', ''secret1''),
                 (''webhook'', ''https://example.org/hook'')]\<rparr>"

text \<open>\<open>n\<close> button presses, 301 ms apart, the first one 301 ms after the boot time of
  \<open>cold_boot\<close>.\<close>

primrec presses :: "nat \<Rightarrow> event list" where
  "presses 0 = []"
| "presses (Suc n) = presses n @ [Irq (1000 + 301 * word_of_nat (Suc n))]"

text \<open>The number of button interrupts among the events.\<close>

primrec irqs :: "event list \<Rightarrow> nat" where
  "irqs [] = 0"
| "irqs (e # es) = (case e of Irq t \<Rightarrow> Suc (irqs es) | Tick x \<Rightarrow> irqs es | Boot b \<Rightarrow> irqs es)"

section \<open>Control points of the station branch\<close>

text \<open>The control points of the second branch of \<^verbatim>\<open>loop\<close> (lines 231-252) and of the
  functions called from it.\<close>

definition station_only :: "pc \<Rightarrow> bool" where
  "station_only l = (l = L234 \<or> l = L235 \<or> l = L235_store \<or> l = L238 \<or> l = L241 \<or> l = L246
     \<or> l = S557 \<or> in_flight l \<or> sleep_path l)"

section \<open>Concrete runs\<close>

text \<open>A step of the main thread at clock value \<open>t\<close>, with the network connected and no
  HTTP client waiting.\<close>

definition tick_at :: "32 word \<Rightarrow> event" where
  "tick_at t = Tick \<lparr>now = t, status = WL_CONNECTED, client = None\<rparr>"

text \<open>After a wake-up by the button and one more press: the run up to the store of line
  235, on into \<^verbatim>\<open>sendWebhookRequest\<close>, and on to the guard of line 246.\<close>

definition to_store :: "event list" where
  "to_store = [Irq 5000, tick_at 6000, tick_at 6000, tick_at 6000, tick_at 6000, tick_at 6000]"

definition to_flight :: "event list" where
  "to_flight = to_store @ [tick_at 6000, tick_at 6000, tick_at 6000]"

definition to_guard :: "event list" where
  "to_guard = to_flight @ [tick_at 6000, tick_at 6000, tick_at 6000, tick_at 6000,
     tick_at 6000, tick_at 6000]"

text \<open>
  A cold boot that connects, a minute without activity, and a button press that arrives
  after the guard of line 246 has been passed and before \<^verbatim>\<open>goToSleep\<close> detaches the
  interrupt: six steps of the main thread up to line 248, the press, and seven more steps.
\<close>

definition idle_boot :: boot_env where
  "idle_boot = \<lparr>wakeup_reason = ESP_SLEEP_WAKEUP_UNDEFINED, bootMillis = 1000,
     buttonState = HIGH, wifiStatus = (\<lambda>n. if n < 5 then WL_DISCONNECTED else WL_CONNECTED),
     randomValue = 4242, softAPStarted = True\<rparr>"

definition to_sleep_path :: "event list" where
  "to_sleep_path = [tick_at 61000, tick_at 61000, tick_at 61000, tick_at 61000,
     tick_at 61000, tick_at 61000]"

definition late_press :: "event list" where
  "late_press = to_sleep_path @ [Irq 61000, tick_at 61000, tick_at 61000, tick_at 61000,
     tick_at 61000, tick_at 61000, tick_at 61000, tick_at 61000]"

text \<open>Steps of the main loop in access-point mode, more than an hour after boot.\<close>

definition idle_ticks :: "event list" where
  "idle_ticks = [tick_at 4000000, tick_at 4000000, tick_at 4000000, tick_at 4000000,
     tick_at 4000000, tick_at 4000000]"

section \<open>Trimmed configurations\<close>

text \<open>The six configuration strings are trimmed; the six values of the store are trimmed
  (a key that is absent counts as the empty string).\<close>

definition config_trimmed :: "state \<Rightarrow> bool" where
  "config_trimmed s = (is_trimmed (ssid s) \<and> is_trimmed (password s) \<and> is_trimmed (webhookUrl s)
     \<and> is_trimmed (webhookMethod s) \<and> is_trimmed (webhookHeaders s)
     \<and> is_trimmed (webhookPayload s))"

definition store_trimmed :: "(string \<rightharpoonup> string) \<Rightarrow> bool" where
  "store_trimmed prefs = (is_trimmed (getString prefs ''ssid'' [])
     \<and> is_trimmed (getString prefs ''password'' [])
     \<and> is_trimmed (getString prefs ''webhook'' [])
     \<and> is_trimmed (getString prefs ''webhook_method'' [])
     \<and> is_trimmed (getString prefs ''webhook_headers'' [])
     \<and> is_trimmed (getString prefs ''webhook_payload'' []))"

section \<open>Properties of the string operations\<close>

lemma takeWhile_absent: "c \<notin> set xs \<Longrightarrow> takeWhile (\<lambda>x. x \<noteq> c) xs = xs"
  by (induction xs) auto

lemma line_end_eq:
  "line_end h n = (if n < length h then n + length (takeWhile (\<lambda>x. x \<noteq> CHR 0x0A) (drop n h)) else length h)"
proof (cases "CHR 0x0A \<in> set (drop n h)")
  case True
  then have "n < length h" by (cases "n < length h") auto
  with True show ?thesis by (simp add: line_end_def indexOf_def Let_def)
next
  case False
  then show ?thesis by (simp add: line_end_def indexOf_def Let_def takeWhile_absent)
qed

lemma substring_line:
  "n < length h \<Longrightarrow> substring h n (line_end h n) = takeWhile (\<lambda>x. x \<noteq> CHR 0x0A) (drop n h)"
proof -
  assume n: "n < length h"
  let ?k = "length (takeWhile (\<lambda>x. x \<noteq> CHR 0x0A) (drop n h))"
  have k: "?k \<le> length h - n"
    using length_takeWhile_le [of "\<lambda>x. x \<noteq> CHR 0x0A" "drop n h"] by simp
  have "substring h n (n + ?k) = take ?k (drop n h)"
    using n k by (simp add: substring_def Let_def)
  also have "\<dots> = takeWhile (\<lambda>x. x \<noteq> CHR 0x0A) (drop n h)"
    by (rule takeWhile_eq_take [symmetric])
  finally show ?thesis using n by (simp add: line_end_eq)
qed

lemma header_of_line_Nil: "header_of_line [] = []"
  by (simp add: header_of_line_def trim_def)

lemma split_lines_Nil: "split_lines [] = [[]]"
  by (simp add: split_lines.simps)

lemma tl_dropWhile_drop:
  "tl (dropWhile P (drop n h)) = drop (Suc (n + length (takeWhile P (drop n h)))) h"
proof -
  have "tl (dropWhile P (drop n h)) = tl (drop (length (takeWhile P (drop n h))) (drop n h))"
    by (simp only: dropWhile_eq_drop [symmetric])
  also have "\<dots> = drop (Suc (n + length (takeWhile P (drop n h)))) h"
    by (simp add: tl_drop drop_Suc add.commute)
  finally show ?thesis .
qed

lemma parse_headers_split:
  "parse_headers h n = concat (map header_of_line (split_lines (drop n h)))"
proof (induction h n rule: parse_headers.induct)
  case (1 h n)
  show ?case
  proof (cases "n < length h")
    case False
    then show ?thesis
      by (simp add: parse_headers.simps split_lines_Nil header_of_line_Nil)
  next
    case True
    note IH = 1 [OF True]
    have step: "parse_headers h n = header_of_line (takeWhile (\<lambda>x. x \<noteq> CHR 0x0A) (drop n h))
        @ concat (map header_of_line (split_lines (drop (line_end h n + 1) h)))"
      using True IH by (subst parse_headers.simps) (simp add: substring_line)
    show ?thesis
    proof (cases "CHR 0x0A \<in> set (drop n h)")
      case nl: True
      have "split_lines (drop n h) = takeWhile (\<lambda>x. x \<noteq> CHR 0x0A) (drop n h)
          # split_lines (drop (line_end h n + 1) h)"
        using nl True by (subst split_lines.simps) (simp add: line_end_eq tl_dropWhile_drop)
      with step show ?thesis by simp
    next
      case nonl: False
      have "split_lines (drop n h) = [drop n h]"
        using nonl by (subst split_lines.simps) simp
      moreover have "line_end h n = length h"
        using True nonl by (simp add: line_end_def indexOf_def)
      ultimately show ?thesis
        using step nonl by (simp add: takeWhile_absent split_lines_Nil header_of_line_Nil)
    qed
  qed
qed

lemma dropWhile_rev_prefix:
  "dropWhile P (rev (dropWhile P (rev (dropWhile P s)))) = rev (dropWhile P (rev (dropWhile P s)))"
proof (cases "rev (dropWhile P (rev (dropWhile P s)))")
  case Nil
  then show ?thesis by (simp only: dropWhile.simps)
next
  case (Cons a as)
  let ?u = "dropWhile P s"
  have split: "?u = rev (dropWhile P (rev ?u)) @ rev (takeWhile P (rev ?u))"
    by (metis rev_append rev_rev_ident takeWhile_dropWhile_id)
  with Cons have "?u = (a # as) @ rev (takeWhile P (rev ?u))" by simp
  then have u: "?u = a # (as @ rev (takeWhile P (rev ?u)))" by simp
  have "\<not> P (hd ?u)"
    using u by (metis hd_dropWhile list.distinct(1))
  with u have "\<not> P a" by (metis list.sel(1))
  with Cons show ?thesis by simp
qed

lemma trim_idem: "trim (trim s) = trim s"
  by (simp add: trim_def dropWhile_rev_prefix)

lemma is_trimmed_trim: "is_trimmed (trim s)"
  by (simp add: is_trimmed_def trim_idem)

lemma set_trim_subset: "set (trim s) \<subseteq> set s"
proof -
  have "set (trim s) \<subseteq> set (dropWhile isspace s)"
    unfolding trim_def using set_dropWhileD [of _ isspace "rev (dropWhile isspace s)"] by auto
  also have "\<dots> \<subseteq> set s" using set_dropWhileD by fastforce
  finally show ?thesis .
qed

lemma header_of_line_blank: "trim l = [] \<Longrightarrow> header_of_line l = []"
  by (simp add: header_of_line_def)

lemma header_of_line_no_colon: "CHR '':'' \<notin> set l \<Longrightarrow> header_of_line l = []"
proof -
  assume "CHR '':'' \<notin> set l"
  then have "CHR '':'' \<notin> set (trim l)" using set_trim_subset by blast
  then show ?thesis by (simp add: header_of_line_def indexOf_def Let_def)
qed

lemma header_of_line_trimmed:
  "kv \<in> set (header_of_line l) \<Longrightarrow> is_trimmed (fst kv) \<and> is_trimmed (snd kv)"
  by (auto simp: header_of_line_def Let_def is_trimmed_trim split: if_splits)

lemma parse_headers_trimmed:
  "kv \<in> set (parse_headers h n) \<Longrightarrow> is_trimmed (fst kv) \<and> is_trimmed (snd kv)"
  by (auto simp: parse_headers_split dest: header_of_line_trimmed)

lemma takeWhile_present: "c \<in> set xs \<Longrightarrow> length (takeWhile (\<lambda>x. x \<noteq> c) xs) < length xs"
  by (induction xs) auto

lemma header_of_line_pair:
  assumes "CHR '':'' \<in> set (trim l)" and "hd (trim l) \<noteq> CHR '':''"
  shows "header_of_line l =
     [(trim (takeWhile (\<lambda>x. x \<noteq> CHR '':'') (trim l)),
       trim (tl (dropWhile (\<lambda>x. x \<noteq> CHR '':'') (trim l))))]"
proof -
  let ?t = "trim l"
  let ?k = "length (takeWhile (\<lambda>x. x \<noteq> CHR '':'') ?t)"
  from assms have ne: "?t \<noteq> []" by auto
  then have k0: "0 < ?k" using assms(2) by (cases ?t) auto
  have klt: "?k < length ?t"
    using assms(1) by (rule takeWhile_present)
  have idx: "indexOf CHR '':'' ?t 0 = int ?k"
    using assms(1) ne by (simp add: indexOf_def)
  have key: "substring ?t 0 ?k = takeWhile (\<lambda>x. x \<noteq> CHR '':'') ?t"
    using klt ne by (simp add: substring_def Let_def takeWhile_eq_take [symmetric])
  have "substring_from ?t (Suc ?k) = drop (Suc ?k) ?t"
    using klt by (auto simp: substring_from_def substring_def Let_def)
  also have "\<dots> = tl (dropWhile (\<lambda>x. x \<noteq> CHR '':'') ?t)"
    using tl_dropWhile_drop [of "\<lambda>x. x \<noteq> CHR '':''" 0 ?t] by simp
  finally have val: "substring_from ?t (Suc ?k) = tl (dropWhile (\<lambda>x. x \<noteq> CHR '':'') ?t)" .
  show ?thesis
    using ne k0 idx key val by (simp add: header_of_line_def Let_def nat_add_distrib)
qed

section \<open>Header parsing\<close>

text \<open>
  C7. The loop of lines 574-592 splits \<^verbatim>\<open>webhookHeaders\<close> at the newlines and handles each
  line on its own. A line that is empty after trimming, or that has no colon, adds no
  header. A line whose trimmed text contains a colon, but does not begin with one, adds
  one header: the key is the trimmed text before the first colon, the value the trimmed
  text after it. Every key and
  value that is added is trimmed. For the text \<^verbatim>\<open>Content-Type: application/json\<close>, an empty
  line and \<^verbatim>\<open>Bad Line\<close>, exactly the pair of \<^verbatim>\<open>Content-Type\<close> and \<^verbatim>\<open>application/json\<close> is
  added.
\<close>

theorem parse_headers_lines:
  "parse_headers h 0 = concat (map header_of_line (split_lines h))
   \<and> (trim l = [] \<longrightarrow> header_of_line l = [])
   \<and> (CHR '':'' \<notin> set l \<longrightarrow> header_of_line l = [])
   \<and> (CHR '':'' \<in> set (trim l) \<and> hd (trim l) \<noteq> CHR '':'' \<longrightarrow>
        header_of_line l =
          [(trim (takeWhile (\<lambda>x. x \<noteq> CHR '':'') (trim l)),
            trim (tl (dropWhile (\<lambda>x. x \<noteq> CHR '':'') (trim l))))])
   \<and> (\<forall>kv \<in> set (parse_headers h 0). is_trimmed (fst kv) \<and> is_trimmed (snd kv))
   \<and> parse_headers ''Content-Type: application/json\<newline>\<newline>Bad Line'' 0
        = [(''Content-Type'', ''application/json'')]"
proof -
  have "parse_headers h 0 = concat (map header_of_line (split_lines h))"
    using parse_headers_split [of h 0] by simp
  moreover have "\<forall>kv \<in> set (parse_headers h 0). is_trimmed (fst kv) \<and> is_trimmed (snd kv)"
    using parse_headers_trimmed by blast
  moreover have "parse_headers ''Content-Type: application/json\<newline>\<newline>Bad Line'' 0
        = [(''Content-Type'', ''application/json'')]"
    by (simp add: parse_headers.simps line_end_def indexOf_def substring_def
        substring_from_def header_of_line_def trim_def isspace_def Let_def)
  ultimately show ?thesis
    using header_of_line_blank [of l] header_of_line_no_colon [of l] header_of_line_pair [of l]
    by blast
qed

theorem parse_headers_lines_witness:
  "trim ''   '' = [] \<and> header_of_line ''   '' = []
   \<and> CHR '':'' \<notin> set ''Bad Line'' \<and> header_of_line ''Bad Line'' = []
   \<and> header_of_line '' X-Key :  a b:c  '' = [(''X-Key'', ''a b:c'')]
   \<and> parse_headers ''A: 1\<newline>Bad Line\<newline> B :2 '' 0 = [(''A'', ''1''), (''B'', ''2'')]
   \<and> is_trimmed ''A'' \<and> is_trimmed ''1'' \<and> is_trimmed ''B'' \<and> is_trimmed ''2''"
proof -
  have blank: "trim ''   '' = []"
    by (simp add: trim_def isspace_def)
  have nocolon: "CHR '':'' \<notin> set ''Bad Line''"
    by simp
  have t: "trim '' X-Key :  a b:c  '' = ''X-Key :  a b:c''"
    by (simp add: trim_def isspace_def)
  have colon: "CHR '':'' \<in> set (trim '' X-Key :  a b:c  '')
      \<and> hd (trim '' X-Key :  a b:c  '') \<noteq> CHR '':''"
    by (simp add: t)
  have ex: "parse_headers ''A: 1\<newline>Bad Line\<newline> B :2 '' 0 = [(''A'', ''1''), (''B'', ''2'')]"
    by (simp add: parse_headers.simps line_end_def indexOf_def substring_def
        substring_from_def header_of_line_def trim_def isspace_def Let_def)
  note T1 = parse_headers_lines [of "''A: 1\<newline>Bad Line\<newline> B :2 ''" "''   ''"]
  note T2 = parse_headers_lines [of "''A: 1\<newline>Bad Line\<newline> B :2 ''" "''Bad Line''"]
  note T3 = parse_headers_lines [of "''A: 1\<newline>Bad Line\<newline> B :2 ''" "'' X-Key :  a b:c  ''"]
  have c1: "header_of_line ''   '' = []"
    using T1 blank by blast
  have c2: "header_of_line ''Bad Line'' = []"
    using T2 nocolon by blast
  have p: "header_of_line '' X-Key :  a b:c  '' =
      [(trim (takeWhile (\<lambda>x. x \<noteq> CHR '':'') (trim '' X-Key :  a b:c  '')),
        trim (tl (dropWhile (\<lambda>x. x \<noteq> CHR '':'') (trim '' X-Key :  a b:c  ''))))]"
    using T3 colon by blast
  have c3: "header_of_line '' X-Key :  a b:c  '' = [(''X-Key'', ''a b:c'')]"
    unfolding p t by (simp add: trim_def isspace_def)
  have c5: "\<forall>kv \<in> set (parse_headers ''A: 1\<newline>Bad Line\<newline> B :2 '' 0).
         is_trimmed (fst kv) \<and> is_trimmed (snd kv)"
    using T1 by blast
  have c6: "is_trimmed ''A'' \<and> is_trimmed ''1'' \<and> is_trimmed ''B'' \<and> is_trimmed ''2''"
    using c5 unfolding ex by simp
  show ?thesis
    using blank nocolon c1 c2 c3 ex c6 by blast
qed


section \<open>Saving the configuration\<close>

text \<open>
  C9. When a save request lacks one of the required fields \<^verbatim>\<open>ssid\<close>, \<^verbatim>\<open>password\<close> or
  \<^verbatim>\<open>webhook\<close>, \<^verbatim>\<open>handleSave\<close> answers at once with status 400 and writes nothing: the
  store, the six configuration strings and the restart flag are as before.
\<close>

theorem handleSave_missing_field:
  "\<not> (hasArg r ''ssid'' \<and> hasArg r ''password'' \<and> hasArg r ''webhook'') \<Longrightarrow>
     responses (handleSave tm r s) = responses s @ [(400, ''text/plain'')]
     \<and> preferences (handleSave tm r s) = preferences s
     \<and> ssid (handleSave tm r s) = ssid s
     \<and> password (handleSave tm r s) = password s
     \<and> webhookUrl (handleSave tm r s) = webhookUrl s
     \<and> webhookMethod (handleSave tm r s) = webhookMethod s
     \<and> webhookHeaders (handleSave tm r s) = webhookHeaders s
     \<and> webhookPayload (handleSave tm r s) = webhookPayload s
     \<and> configSaved (handleSave tm r s) = configSaved s"
  by (auto simp: handleSave_def)

theorem handleSave_missing_field_witness:
  "\<not> hasArg save_without_webhook ''webhook''
   \<and> responses (handleSave 5000 save_without_webhook (power_on home_store)) = [(400, ''text/plain'')]
   \<and> preferences (handleSave 5000 save_without_webhook (power_on home_store)) = home_store
   \<and> \<not> configSaved (handleSave 5000 save_without_webhook (power_on home_store))"
proof -
  have h: "\<not> (hasArg save_without_webhook ''ssid'' \<and> hasArg save_without_webhook ''password''
      \<and> hasArg save_without_webhook ''webhook'')"
    by (simp add: hasArg_def save_without_webhook_def)
  have w: "\<not> hasArg save_without_webhook ''webhook''"
    by (simp add: hasArg_def save_without_webhook_def)
  from handleSave_missing_field [OF h, of 5000 "power_on home_store"] w
  show ?thesis by (simp add: power_on_def)
qed

text \<open>
  C10. Only \<^verbatim>\<open>ssid\<close>, \<^verbatim>\<open>password\<close> and \<^verbatim>\<open>webhook\<close> are required. A request with these
  three is accepted: the answer has status 200 and the restart flag is set. For each of
  \<^verbatim>\<open>webhook_method\<close>, \<^verbatim>\<open>webhook_headers\<close> and \<^verbatim>\<open>webhook_payload\<close> that the request
  omits, the empty string is stored under its key, whatever was stored there before, and
  the variable holds the empty string.
\<close>

theorem handleSave_optional_fields:
  "hasArg r ''ssid'' \<and> hasArg r ''password'' \<and> hasArg r ''webhook'' \<Longrightarrow>
     responses (handleSave tm r s) = responses s @ [(200, ''text/html'')]
     \<and> configSaved (handleSave tm r s)
     \<and> (\<not> hasArg r ''webhook_method'' \<longrightarrow>
          preferences (handleSave tm r s) ''webhook_method'' = Some []
          \<and> webhookMethod (handleSave tm r s) = [])
     \<and> (\<not> hasArg r ''webhook_headers'' \<longrightarrow>
          preferences (handleSave tm r s) ''webhook_headers'' = Some []
          \<and> webhookHeaders (handleSave tm r s) = [])
     \<and> (\<not> hasArg r ''webhook_payload'' \<longrightarrow>
          preferences (handleSave tm r s) ''webhook_payload'' = Some []
          \<and> webhookPayload (handleSave tm r s) = [])"
  by (auto simp: handleSave_def hasArg_def arg_def trim_def)

theorem handleSave_optional_fields_witness:
  "hasArg save_required_only ''ssid'' \<and> hasArg save_required_only ''password''
   \<and> hasArg save_required_only ''webhook'' \<and> \<not> hasArg save_required_only ''webhook_method''
   \<and> preferences (power_on home_store) ''webhook_method'' = Some ''POST''
   \<and> preferences (handleSave 5000 save_required_only (power_on home_store)) ''webhook_method'' = Some []
   \<and> preferences (handleSave 5000 save_required_only (power_on home_store)) ''webhook_headers'' = Some []
   \<and> preferences (handleSave 5000 save_required_only (power_on home_store)) ''webhook_payload'' = Some []
   \<and> responses (handleSave 5000 save_required_only (power_on home_store)) = [(200, ''text/html'')]
   \<and> configSaved (handleSave 5000 save_required_only (power_on home_store))"
proof -
  have h: "hasArg save_required_only ''ssid'' \<and> hasArg save_required_only ''password''
      \<and> hasArg save_required_only ''webhook''"
    by (simp add: hasArg_def save_required_only_def)
  have m: "\<not> hasArg save_required_only ''webhook_method''
      \<and> \<not> hasArg save_required_only ''webhook_headers''
      \<and> \<not> hasArg save_required_only ''webhook_payload''"
    by (simp add: hasArg_def save_required_only_def)
  have p: "preferences (power_on home_store) ''webhook_method'' = Some ''POST''"
    by (simp add: power_on_def home_store_def)
  have r: "responses (power_on home_store) = []"
    by (simp add: power_on_def)
  from handleSave_optional_fields [OF h, of 5000 "power_on home_store"] h m p r
  show ?thesis by simp
qed

section \<open>Debouncing\<close>

lemma buttonISR_ignored:
  "t - lastButtonPressTime s \<le> DEBOUNCE_TIME \<Longrightarrow> buttonISR t s = s"
  by (simp add: buttonISR_def not_less [symmetric])

lemma triggers_ignored:
  "\<forall>t \<in> set ts. t - lastButtonPressTime s < DEBOUNCE_TIME \<Longrightarrow> triggers ts s = s"
  by (induction ts) (simp_all add: buttonISR_ignored less_imp_le)

text \<open>
  C3. Take a trigger at \<open>t0\<close> that the handler accepts, followed by triggers that each
  arrive less than the debounce time of 300 ms after it (in the wrapping arithmetic of
  \<^verbatim>\<open>millis()\<close>). After any number \<open>k\<close> of the later triggers the state is the one the
  first trigger left: the counter incremented once, both timestamps set to \<open>t0\<close>, and no
  other change.
\<close>

theorem debounce_first_only:
  assumes "DEBOUNCE_TIME < t0 - lastButtonPressTime s"
    and "\<forall>t \<in> set ts. t - t0 < DEBOUNCE_TIME"
  shows "triggers (t0 # take k ts) s =
           s\<lparr>pendingRequests := pendingRequests s + 1,
             lastButtonPressTime := t0, lastActivityTime := t0\<rparr>"
proof -
  have b: "buttonISR t0 s = s\<lparr>pendingRequests := pendingRequests s + 1,
             lastButtonPressTime := t0, lastActivityTime := t0\<rparr>"
    using assms(1) by (simp add: buttonISR_def)
  have "\<forall>t \<in> set (take k ts). t - lastButtonPressTime (buttonISR t0 s) < DEBOUNCE_TIME"
    using assms(2) by (auto simp: b dest: in_set_takeD)
  then have "triggers (take k ts) (buttonISR t0 s) = buttonISR t0 s"
    by (rule triggers_ignored)
  then show ?thesis by (simp add: b)
qed

theorem debounce_first_only_witness:
  "triggers [5000, 5100, 5299] (power_on empty_store)
     = (power_on empty_store)\<lparr>pendingRequests := 1, lastButtonPressTime := 5000,
                               lastActivityTime := 5000\<rparr>
   \<and> pendingRequests (triggers [5000, 5100, 5299, 5301] (power_on empty_store)) = 2"
proof -
  have a: "DEBOUNCE_TIME < 5000 - lastButtonPressTime (power_on empty_store)"
    by (simp add: power_on_def DEBOUNCE_TIME_def)
  have h: "\<forall>t \<in> set [5100, 5299]. t - 5000 < DEBOUNCE_TIME"
    by (simp add: DEBOUNCE_TIME_def)
  have p: "pendingRequests (power_on empty_store) = 0"
    by (simp add: power_on_def)
  have t: "triggers [5000, 5100, 5299] (power_on empty_store)
     = (power_on empty_store)\<lparr>pendingRequests := 1, lastButtonPressTime := 5000,
                               lastActivityTime := 5000\<rparr>"
    using debounce_first_only [OF a h, of 2] by (simp add: p)
  have u: "pendingRequests (triggers [5000, 5100, 5299, 5301] (power_on empty_store)) = 2"
    by (simp add: buttonISR_def power_on_def DEBOUNCE_TIME_def)
  show ?thesis
    using t u by simp
qed

section \<open>Trimming of the configuration\<close>

lemma setupDevice_config:
  "ssid (setupDevice b prefs) = trim (getString prefs ''ssid'' [])
   \<and> password (setupDevice b prefs) = trim (getString prefs ''password'' [])
   \<and> webhookUrl (setupDevice b prefs) = trim (getString prefs ''webhook'' [])
   \<and> webhookMethod (setupDevice b prefs) = getString prefs ''webhook_method'' ''GET''
   \<and> webhookHeaders (setupDevice b prefs) = getString prefs ''webhook_headers'' []
   \<and> webhookPayload (setupDevice b prefs) = getString prefs ''webhook_payload'' []
   \<and> preferences (setupDevice b prefs) = prefs"
  by (simp add: setupDevice_def Let_def load_config_def power_on_def)

lemma is_trimmed_Nil: "is_trimmed []"
  by (simp add: is_trimmed_def trim_def)

lemma is_trimmed_GET: "is_trimmed ''GET''"
  by (simp add: is_trimmed_def trim_def isspace_def)

lemma getString_default_trimmed:
  "is_trimmed (getString prefs k []) \<Longrightarrow> is_trimmed d \<Longrightarrow> is_trimmed (getString prefs k d)"
  by (cases "prefs k") (simp_all add: getString_def)

lemma setupDevice_trimmed:
  "store_trimmed prefs \<Longrightarrow> config_trimmed (setupDevice b prefs)"
  by (simp add: config_trimmed_def store_trimmed_def setupDevice_config is_trimmed_trim
      getString_default_trimmed is_trimmed_GET is_trimmed_Nil)

lemma handleSave_trimmed:
  "config_trimmed s \<and> store_trimmed (preferences s) \<Longrightarrow>
     config_trimmed (handleSave t r s) \<and> store_trimmed (preferences (handleSave t r s))"
  by (simp add: handleSave_def config_trimmed_def store_trimmed_def getString_def is_trimmed_trim)

lemma handleClient_trimmed:
  "config_trimmed s \<and> store_trimmed (preferences s) \<Longrightarrow>
     config_trimmed (handleClient t cl s) \<and> store_trimmed (preferences (handleClient t cl s))"
proof -
  assume a: "config_trimmed s \<and> store_trimmed (preferences s)"
  have root: "config_trimmed (handleRoot t s) \<and> store_trimmed (preferences (handleRoot t s))"
    using a by (simp add: handleRoot_def config_trimmed_def)
  have nf: "config_trimmed (handleNotFound s) \<and> store_trimmed (preferences (handleNotFound s))"
    using a by (simp add: handleNotFound_def config_trimmed_def)
  show ?thesis
    using a root nf handleSave_trimmed [OF a]
    by (simp add: handleClient_def split: option.splits)
qed

lemma trimmed_main_step:
  "config_trimmed (glob c) \<and> store_trimmed (preferences (glob c)) \<Longrightarrow>
     config_trimmed (glob (main_step e c)) \<and> store_trimmed (preferences (glob (main_step e c)))"
proof (cases "pc c = L219")
  case True
  assume "config_trimmed (glob c) \<and> store_trimmed (preferences (glob c))"
  then show ?thesis
    using True handleClient_trimmed [of "glob c" "now e" "client e"]
    by (simp add: main_step_def Let_def)
next
  case False
  assume "config_trimmed (glob c) \<and> store_trimmed (preferences (glob c))"
  then show ?thesis
    using False
    by (cases "pc c")
       (simp_all add: main_step_def Let_def goto_def config_trimmed_def is_trimmed_Nil)
qed

lemma trimmed_step:
  "config_trimmed (glob c) \<and> store_trimmed (preferences (glob c)) \<Longrightarrow>
     config_trimmed (glob (step e c)) \<and> store_trimmed (preferences (glob (step e c)))"
proof (cases e)
  case (Irq t)
  assume "config_trimmed (glob c) \<and> store_trimmed (preferences (glob c))"
  then show ?thesis using Irq by (simp add: buttonISR_def config_trimmed_def)
next
  case (Tick x)
  assume "config_trimmed (glob c) \<and> store_trimmed (preferences (glob c))"
  then show ?thesis using Tick by (simp add: trimmed_main_step)
next
  case (Boot b)
  assume "config_trimmed (glob c) \<and> store_trimmed (preferences (glob c))"
  then show ?thesis using Boot
    by (simp add: boot_def setupDevice_trimmed setupDevice_config)
qed

lemma trimmed_run:
  "config_trimmed (glob c) \<and> store_trimmed (preferences (glob c)) \<Longrightarrow>
     config_trimmed (glob (run evs c)) \<and> store_trimmed (preferences (glob (run evs c)))"
  by (induction evs arbitrary: c) (simp_all add: trimmed_step)

lemma trimmed_reachable:
  "store_trimmed prefs \<Longrightarrow> config_trimmed (glob (run evs (boot b prefs)))"
  using trimmed_run [of "boot b prefs" evs]
  by (simp add: boot_def setupDevice_trimmed setupDevice_config)

text \<open>
  C8, as amended. At boot \<^verbatim>\<open>ssid\<close>, \<^verbatim>\<open>password\<close> and \<^verbatim>\<open>webhookUrl\<close> are trimmed after
  loading; \<^verbatim>\<open>webhookMethod\<close>, \<^verbatim>\<open>webhookHeaders\<close> and \<^verbatim>\<open>webhookPayload\<close> are taken from the
  store as they are. An accepted save trims all six strings before it assigns and stores
  them. Hence, when the store holds trimmed values at the first boot (an empty store
  does), all six strings are trimmed in every state reached from there, across saves and
  reboots.
\<close>

theorem config_trimming:
  "is_trimmed (ssid (setupDevice b prefs))
   \<and> is_trimmed (password (setupDevice b prefs))
   \<and> is_trimmed (webhookUrl (setupDevice b prefs))
   \<and> webhookMethod (setupDevice b prefs) = getString prefs ''webhook_method'' ''GET''
   \<and> webhookHeaders (setupDevice b prefs) = getString prefs ''webhook_headers'' []
   \<and> webhookPayload (setupDevice b prefs) = getString prefs ''webhook_payload'' []
   \<and> (hasArg r ''ssid'' \<and> hasArg r ''password'' \<and> hasArg r ''webhook'' \<longrightarrow>
        is_trimmed (ssid (handleSave tm r s))
        \<and> is_trimmed (password (handleSave tm r s))
        \<and> is_trimmed (webhookUrl (handleSave tm r s))
        \<and> is_trimmed (webhookMethod (handleSave tm r s))
        \<and> is_trimmed (webhookHeaders (handleSave tm r s))
        \<and> is_trimmed (webhookPayload (handleSave tm r s))
        \<and> preferences (handleSave tm r s) ''ssid'' = Some (ssid (handleSave tm r s))
        \<and> preferences (handleSave tm r s) ''password'' = Some (password (handleSave tm r s))
        \<and> preferences (handleSave tm r s) ''webhook'' = Some (webhookUrl (handleSave tm r s))
        \<and> preferences (handleSave tm r s) ''webhook_method''
            = Some (webhookMethod (handleSave tm r s))
        \<and> preferences (handleSave tm r s) ''webhook_headers''
            = Some (webhookHeaders (handleSave tm r s))
        \<and> preferences (handleSave tm r s) ''webhook_payload''
            = Some (webhookPayload (handleSave tm r s))
        \<and> is_trimmed (webhookMethod (setupDevice b (preferences (handleSave tm r s))))
        \<and> is_trimmed (webhookHeaders (setupDevice b (preferences (handleSave tm r s))))
        \<and> is_trimmed (webhookPayload (setupDevice b (preferences (handleSave tm r s)))))
   \<and> (store_trimmed prefs \<longrightarrow> config_trimmed (glob (run evs (boot b prefs))))"
  using trimmed_reachable [of prefs evs b]
  by (simp add: setupDevice_config is_trimmed_trim handleSave_def getString_def)

theorem config_trimming_witness:
  "hasArg save_required_only ''ssid'' \<and> hasArg save_required_only ''password''
   \<and> hasArg save_required_only ''webhook''
   \<and> ssid (handleSave 5000 save_required_only (power_on home_store)) = ''Home''
   \<and> is_trimmed (ssid (handleSave 5000 save_required_only (power_on home_store)))
   \<and> preferences (handleSave 5000 save_required_only (power_on home_store)) ''ssid'' = Some ''Home''
   \<and> is_trimmed (webhookMethod (setupDevice cold_boot
         (preferences (handleSave 5000 save_required_only (power_on home_store)))))
   \<and> webhookMethod (setupDevice cold_boot padded_store) = '' POST ''
   \<and> store_trimmed home_store
   \<and> config_trimmed (glob (run to_guard (boot button_wake home_store)))"
proof -
  have h: "hasArg save_required_only ''ssid'' \<and> hasArg save_required_only ''password''
      \<and> hasArg save_required_only ''webhook''"
    by (simp add: hasArg_def save_required_only_def)
  have st: "store_trimmed home_store"
    by (simp add: store_trimmed_def home_store_def getString_def is_trimmed_def trim_def
        isspace_def)
  have ct: "config_trimmed (glob (run to_guard (boot button_wake home_store)))"
    using config_trimming [of button_wake home_store save_required_only 5000
        "power_on home_store" to_guard] st
    by blast
  have v: "ssid (handleSave 5000 save_required_only (power_on home_store)) = ''Home''"
    by (simp add: handleSave_def hasArg_def arg_def save_required_only_def trim_def isspace_def)
  have m: "getString padded_store ''webhook_method'' ''GET'' = '' POST ''"
    by (simp add: getString_def padded_store_def)
  note T = config_trimming [of cold_boot padded_store save_required_only 5000
      "power_on home_store" to_guard]
  have a: "is_trimmed (ssid (handleSave 5000 save_required_only (power_on home_store)))"
    using T h by blast
  have b: "preferences (handleSave 5000 save_required_only (power_on home_store)) ''ssid''
      = Some (ssid (handleSave 5000 save_required_only (power_on home_store)))"
    using T h by blast
  have c: "is_trimmed (webhookMethod (setupDevice cold_boot
         (preferences (handleSave 5000 save_required_only (power_on home_store)))))"
    using T h by blast
  have d: "webhookMethod (setupDevice cold_boot padded_store) = '' POST ''"
    using T m by simp
  show ?thesis
    using h v a b c d st ct by simp
qed

text \<open>
  C8 as stated fails for the three strings that \<^verbatim>\<open>setup\<close> does not trim: with the method
  stored as \<^verbatim>\<open>POST\<close> between two blanks, the loaded \<^verbatim>\<open>webhookMethod\<close> keeps the blanks.
\<close>

theorem config_trimming_counterexample:
  "\<not> is_trimmed (webhookMethod (setupDevice cold_boot padded_store))"
  by (simp add: setupDevice_config getString_def padded_store_def is_trimmed_def trim_def isspace_def)

section \<open>The connection manager\<close>

lemma call_simps:
  "calls (call cs w) = calls w @ cs"
  "wifiMode (call cs w) = wifiMode w"
  "serverStarted (call cs w) = serverStarted w"
  "statusReads (call cs w) = statusReads w"
  by (simp_all add: call_def)

lemma read_status_simps:
  "calls (read_status w) = calls w"
  "wifiMode (read_status w) = wifiMode w"
  "serverStarted (read_status w) = serverStarted w"
  "statusReads (read_status w) = Suc (statusReads w)"
  by (simp_all add: read_status_def)

lemma wait_connected_stop:
  "\<not> (WiFi_status st w \<noteq> WL_CONNECTED \<and> a < MAX_CONNECTION_ATTEMPTS) \<Longrightarrow>
     wait_connected st a w = (a, read_status w)"
  by (subst wait_connected.simps) auto

lemma wait_connected_go:
  "WiFi_status st w \<noteq> WL_CONNECTED \<and> a < MAX_CONNECTION_ATTEMPTS \<Longrightarrow>
     wait_connected st a w = wait_connected st (a + 1)
          (if a mod 3 = 0
           then read_status (call [Delay CONNECTION_RETRY_DELAY] (read_status w))
           else call [Delay CONNECTION_RETRY_DELAY] (read_status w))"
  by (subst wait_connected.simps) simp


lemma wait_connected_calls:
  "a \<le> MAX_CONNECTION_ATTEMPTS \<Longrightarrow>
     a \<le> fst (wait_connected st a w)
     \<and> fst (wait_connected st a w) \<le> MAX_CONNECTION_ATTEMPTS
     \<and> calls (snd (wait_connected st a w))
         = calls w @ replicate (fst (wait_connected st a w) - a) (Delay CONNECTION_RETRY_DELAY)
     \<and> wifiMode (snd (wait_connected st a w)) = wifiMode w
     \<and> serverStarted (snd (wait_connected st a w)) = serverStarted w"
proof (induction st a w rule: wait_connected.induct)
  case (1 st attempts w)
  show ?case
  proof (cases "WiFi_status st w \<noteq> WL_CONNECTED \<and> attempts < MAX_CONNECTION_ATTEMPTS")
    case False
    show ?thesis
      unfolding wait_connected_stop [OF False] using "1.prems"
      by (simp add: read_status_simps)
  next
    case True
    define w' where "w' = (if attempts mod 3 = 0
           then read_status (call [Delay CONNECTION_RETRY_DELAY] (read_status w))
           else call [Delay CONNECTION_RETRY_DELAY] (read_status w))"
    define r where "r = wait_connected st (attempts + 1) w'"
    have unf: "wait_connected st attempts w = r"
      unfolding r_def w'_def by (rule wait_connected_go [OF True])
    have le: "attempts + 1 \<le> MAX_CONNECTION_ATTEMPTS" using True by simp
    have IH: "attempts + 1 \<le> fst r \<and> fst r \<le> MAX_CONNECTION_ATTEMPTS
       \<and> calls (snd r) = calls w' @ replicate (fst r - (attempts + 1)) (Delay CONNECTION_RETRY_DELAY)
       \<and> wifiMode (snd r) = wifiMode w' \<and> serverStarted (snd r) = serverStarted w'"
      unfolding r_def w'_def by (rule "1.IH" [OF True le])
    have cw: "calls w' = calls w @ [Delay CONNECTION_RETRY_DELAY]"
      and mw: "wifiMode w' = wifiMode w" and sw: "serverStarted w' = serverStarted w"
      by (simp_all add: w'_def call_simps read_status_simps)
    have "fst r - attempts = Suc (fst r - (attempts + 1))"
      using IH by linarith
    then have rp: "replicate (fst r - attempts) (Delay CONNECTION_RETRY_DELAY)
        = Delay CONNECTION_RETRY_DELAY
          # replicate (fst r - (attempts + 1)) (Delay CONNECTION_RETRY_DELAY)"
      by simp
    show ?thesis
      unfolding unf rp using IH by (simp add: cw mw sw)
  qed
qed

lemma cycles_calls_Cons:
  "ks \<noteq> [] \<Longrightarrow> cycles_calls ss pw (k # ks) = cycle_calls ss pw k @ [Delay 3000] @ cycles_calls ss pw ks"
  by (cases ks) simp_all

lemma connect_cycles_stop:
  "\<not> i < MAX_FULL_CONNECTION_ATTEMPTS \<Longrightarrow> connect_cycles st ss pw i w = (False, w)"
  by (subst connect_cycles.simps) simp

lemma connect_cycles_connected:
  "i < MAX_FULL_CONNECTION_ATTEMPTS \<Longrightarrow>
   WiFi_status st (snd (wait_connected st 0
       (call [WiFiDisconnect False, Delay 1000, WiFiBegin ss pw, WiFiSetTxPower] w))) = WL_CONNECTED \<Longrightarrow>
   connect_cycles st ss pw i w =
     (True, read_status (snd (wait_connected st 0
       (call [WiFiDisconnect False, Delay 1000, WiFiBegin ss pw, WiFiSetTxPower] w))))"
  by (subst connect_cycles.simps) (simp add: Let_def)

lemma connect_cycles_retry:
  "i < MAX_FULL_CONNECTION_ATTEMPTS \<Longrightarrow>
   WiFi_status st (snd (wait_connected st 0
       (call [WiFiDisconnect False, Delay 1000, WiFiBegin ss pw, WiFiSetTxPower] w))) \<noteq> WL_CONNECTED \<Longrightarrow>
   connect_cycles st ss pw i w =
     connect_cycles st ss pw (i + 1)
       (if i < MAX_FULL_CONNECTION_ATTEMPTS - 1
        then call [Delay 3000] (read_status (read_status (snd (wait_connected st 0
          (call [WiFiDisconnect False, Delay 1000, WiFiBegin ss pw, WiFiSetTxPower] w)))))
        else read_status (read_status (snd (wait_connected st 0
          (call [WiFiDisconnect False, Delay 1000, WiFiBegin ss pw, WiFiSetTxPower] w)))))"
  by (subst connect_cycles.simps) (simp add: Let_def)

lemma setupAP_simps:
  "wifiMode (setupWebServer (setupAP rnd ap w)) = WIFI_MODE_AP"
  "serverStarted (setupWebServer (setupAP rnd ap w))"
  "calls (setupWebServer (setupAP rnd ap w)) = calls w @ fallback_calls rnd ap"
  by (simp_all add: setupWebServer_def setupAP_def call_def fallback_calls_def)

lemma setupWiFi_connected_at_once:
  assumes "\<forall>n. st n = WL_CONNECTED"
  shows "wifiMode (setupWiFi st ss pw rnd ap w) = WIFI_MODE_STA
     \<and> calls (setupWiFi st ss pw rnd ap w)
          = calls w @ [WiFiMode WIFI_MODE_STA, Delay 100] @ cycle_calls ss pw 0"
proof -
  define w0 where "w0 = call [WiFiMode WIFI_MODE_STA, Delay 100] (w\<lparr>wifiMode := WIFI_MODE_STA\<rparr>)"
  define w1 where "w1 = call [WiFiDisconnect False, Delay 1000, WiFiBegin ss pw, WiFiSetTxPower] w0"
  have s: "\<And>v. WiFi_status st v = WL_CONNECTED"
    using assms by (simp add: WiFi_status_def)
  have "\<not> (WiFi_status st w1 \<noteq> WL_CONNECTED \<and> 0 < MAX_CONNECTION_ATTEMPTS)"
    using s by simp
  then have wc: "wait_connected st 0 w1 = (0, read_status w1)"
    by (rule wait_connected_stop)
  have lt: "0 < MAX_FULL_CONNECTION_ATTEMPTS"
    by (simp add: MAX_FULL_CONNECTION_ATTEMPTS_def)
  have "connect_cycles st ss pw 0 w0 = (True, read_status (snd (wait_connected st 0 w1)))"
    unfolding w1_def by (rule connect_cycles_connected [OF lt]) (rule s)
  then have cc: "connect_cycles st ss pw 0 w0 = (True, read_status (read_status w1))"
    by (simp add: wc)
  have "setupWiFi st ss pw rnd ap w = read_status (read_status w1)"
    using cc by (simp add: setupWiFi_def w0_def Let_def)
  then show ?thesis
    by (simp add: read_status_simps w1_def w0_def call_simps cycle_calls_def call_def)
qed

lemma list_all_upt_Suc:
  "list_all P [0..<Suc a] = (list_all P [0..<a] \<and> P a)"
  by (auto simp add: list_all_iff)

lemma wait_connected_reads:
  "a \<le> MAX_CONNECTION_ATTEMPTS \<Longrightarrow> statusReads w = guard_read n a \<Longrightarrow>
   list_all (\<lambda>a'. st (guard_read n a') \<noteq> WL_CONNECTED) [0..<a] \<Longrightarrow>
     polled st n (fst (wait_connected st a w))
     \<and> statusReads (snd (wait_connected st a w)) = check_read n (fst (wait_connected st a w))"
proof (induction st a w rule: wait_connected.induct)
  case (1 st attempts w)
  show ?case
  proof (cases "WiFi_status st w \<noteq> WL_CONNECTED \<and> attempts < MAX_CONNECTION_ATTEMPTS")
    case False
    have "attempts = MAX_CONNECTION_ATTEMPTS \<or> st (guard_read n attempts) = WL_CONNECTED"
      using False "1.prems"(1,2) by (auto simp: WiFi_status_def)
    then show ?thesis
      unfolding wait_connected_stop [OF False] using "1.prems"
      by (simp add: polled_def check_read_def read_status_simps)
  next
    case True
    define w' where "w' = (if attempts mod 3 = 0
           then read_status (call [Delay CONNECTION_RETRY_DELAY] (read_status w))
           else call [Delay CONNECTION_RETRY_DELAY] (read_status w))"
    define r where "r = wait_connected st (attempts + 1) w'"
    have unf: "wait_connected st attempts w = r"
      unfolding r_def w'_def by (rule wait_connected_go [OF True])
    have le: "attempts + 1 \<le> MAX_CONNECTION_ATTEMPTS" using True by simp
    have rd: "statusReads w' = guard_read n (attempts + 1)"
      using "1.prems"(2) by (simp add: w'_def call_simps read_status_simps)
    have "st (guard_read n attempts) \<noteq> WL_CONNECTED"
      using True "1.prems"(2) by (simp add: WiFi_status_def)
    then have al: "list_all (\<lambda>a'. st (guard_read n a') \<noteq> WL_CONNECTED) [0..<attempts + 1]"
      using "1.prems"(3) by (simp add: list_all_iff)
    have "polled st n (fst r) \<and> statusReads (snd r) = check_read n (fst r)"
      unfolding r_def
      by (rule "1.IH" [OF True le, folded w'_def, OF rd al])
    then show ?thesis unfolding unf .
  qed
qed

lemma connect_cycles_follows:
  "i < MAX_FULL_CONNECTION_ATTEMPTS \<Longrightarrow>
   \<exists>ks. length ks \<le> MAX_FULL_CONNECTION_ATTEMPTS - i
     \<and> ks \<noteq> []
     \<and> (\<forall>k \<in> set ks. k \<le> MAX_CONNECTION_ATTEMPTS)
     \<and> follows st (statusReads w) ks (fst (connect_cycles st ss pw i w))
     \<and> calls (snd (connect_cycles st ss pw i w)) = calls w @ cycles_calls ss pw ks
     \<and> wifiMode (snd (connect_cycles st ss pw i w)) = wifiMode w
     \<and> serverStarted (snd (connect_cycles st ss pw i w)) = serverStarted w
     \<and> (fst (connect_cycles st ss pw i w) \<longrightarrow>
          st (statusReads (snd (connect_cycles st ss pw i w)) - 1) = WL_CONNECTED)
     \<and> (\<not> fst (connect_cycles st ss pw i w) \<longrightarrow> length ks = MAX_FULL_CONNECTION_ATTEMPTS - i)"
proof (induction st ss pw i w rule: connect_cycles.induct)
  case (1 st ss pw i w)
  note lt = "1.prems"
  define w1 where "w1 = call [WiFiDisconnect False, Delay 1000, WiFiBegin ss pw, WiFiSetTxPower] w"
  define w2 where "w2 = snd (wait_connected st 0 w1)"
  define k where "k = fst (wait_connected st 0 w1)"
  define n where "n = statusReads w"
  have wc: "k \<le> MAX_CONNECTION_ATTEMPTS"
    "calls w2 = calls w @ cycle_calls ss pw k"
    "wifiMode w2 = wifiMode w" "serverStarted w2 = serverStarted w"
    using wait_connected_calls [of 0 st w1]
    by (simp_all add: w1_def w2_def k_def call_simps cycle_calls_def)
  have "polled st n k \<and> statusReads w2 = check_read n k"
    unfolding k_def w2_def
    by (rule wait_connected_reads) (simp_all add: w1_def n_def call_simps)
  then have pl: "polled st n k" and rd: "statusReads w2 = check_read n k" by simp_all
  show ?case
  proof (cases "WiFi_status st w2 = WL_CONNECTED")
    case conn: True
    have unf: "connect_cycles st ss pw i w = (True, read_status w2)"
      using connect_cycles_connected [OF lt, of st ss pw w] conn
      by (simp add: w2_def w1_def)
    have c: "st (check_read n k) = WL_CONNECTED"
      using conn rd by (simp add: WiFi_status_def)
    have "st (statusReads (read_status w2) - 1) = WL_CONNECTED"
      using conn by (simp add: read_status_simps WiFi_status_def)
    then show ?thesis
      unfolding unf n_def [symmetric] using lt wc pl c
      by (intro exI [of _ "[k]"]) (simp add: read_status_simps)
  next
    case fail: False
    define w4 where "w4 = (if i < MAX_FULL_CONNECTION_ATTEMPTS - 1
                  then call [Delay 3000] (read_status (read_status w2))
                  else read_status (read_status w2))"
    define r where "r = connect_cycles st ss pw (i + 1) w4"
    have unf: "connect_cycles st ss pw i w = r"
      using connect_cycles_retry [OF lt, of st ss pw w] fail
      by (simp add: r_def w4_def w2_def w1_def)
    have nc: "st (check_read n k) \<noteq> WL_CONNECTED"
      using fail rd by (simp add: WiFi_status_def)
    have r4: "statusReads w4 = check_read n k + 2"
      using rd by (simp add: w4_def call_simps read_status_simps)
    have fr: "wifiMode w4 = wifiMode w" "serverStarted w4 = serverStarted w"
      "calls w4 = calls w @ cycle_calls ss pw k
          @ (if i < MAX_FULL_CONNECTION_ATTEMPTS - 1 then [Delay 3000] else [])"
      using wc by (simp_all add: w4_def call_simps read_status_simps)
    show ?thesis
    proof (cases "i + 1 < MAX_FULL_CONNECTION_ATTEMPTS")
      case last: False
      then have r: "r = (False, w4)"
        unfolding r_def by (rule connect_cycles_stop)
      have i: "\<not> i < MAX_FULL_CONNECTION_ATTEMPTS - 1" using last by simp
      have len: "MAX_FULL_CONNECTION_ATTEMPTS - i = 1" using last lt by simp
      show ?thesis
        unfolding unf r n_def [symmetric] using wc pl nc fr i len
        by (intro exI [of _ "[k]"]) simp
    next
      case more: True
      have "\<exists>ks. length ks \<le> MAX_FULL_CONNECTION_ATTEMPTS - (i + 1)
         \<and> ks \<noteq> []
         \<and> (\<forall>k \<in> set ks. k \<le> MAX_CONNECTION_ATTEMPTS)
         \<and> follows st (statusReads w4) ks (fst r)
         \<and> calls (snd r) = calls w4 @ cycles_calls ss pw ks
         \<and> wifiMode (snd r) = wifiMode w4
         \<and> serverStarted (snd r) = serverStarted w4
         \<and> (fst r \<longrightarrow> st (statusReads (snd r) - 1) = WL_CONNECTED)
         \<and> (\<not> fst r \<longrightarrow> length ks = MAX_FULL_CONNECTION_ATTEMPTS - (i + 1))"
        unfolding r_def w4_def w2_def w1_def
        by (rule "1.IH" [OF lt refl refl _ more]) (use fail in \<open>simp add: w2_def w1_def\<close>)
      then obtain ks where ks: "length ks \<le> MAX_FULL_CONNECTION_ATTEMPTS - (i + 1)"
        "ks \<noteq> []"
        "\<forall>k \<in> set ks. k \<le> MAX_CONNECTION_ATTEMPTS"
        "follows st (statusReads w4) ks (fst r)"
        "calls (snd r) = calls w4 @ cycles_calls ss pw ks"
        "wifiMode (snd r) = wifiMode w4"
        "serverStarted (snd r) = serverStarted w4"
        "fst r \<longrightarrow> st (statusReads (snd r) - 1) = WL_CONNECTED"
        "\<not> fst r \<longrightarrow> length ks = MAX_FULL_CONNECTION_ATTEMPTS - (i + 1)"
        by blast
      obtain k' ks' where kk: "ks = k' # ks'" using ks(2) by (cases ks) auto
      have i: "i < MAX_FULL_CONNECTION_ATTEMPTS - 1" using more by simp
      have fo: "follows st n (k # ks) (fst r)"
        using pl nc ks(4) r4 by (simp add: kk)
      have tr: "calls (snd r) = calls w @ cycles_calls ss pw (k # ks)"
        using ks(5) fr(3) i by (simp add: kk)
      have len: "length (k # ks) \<le> MAX_FULL_CONNECTION_ATTEMPTS - i"
        using ks(1) lt by simp
      have len2: "\<not> fst r \<longrightarrow> length (k # ks) = MAX_FULL_CONNECTION_ATTEMPTS - i"
        using ks(9) lt by auto
      have bnd: "\<forall>k' \<in> set (k # ks). k' \<le> MAX_CONNECTION_ATTEMPTS"
        using ks(3) wc(1) by simp
      show ?thesis
        unfolding unf n_def [symmetric]
        apply (rule exI [of _ "k # ks"])
        using len len2 bnd fo tr ks(6-8) fr(1,2) by simp
    qed
  qed
qed

lemma polled_unique: "polled st n k \<Longrightarrow> polled st n k' \<Longrightarrow> k = k'"
proof (rule ccontr)
  assume p: "polled st n k" and p': "polled st n k'" and ne: "k \<noteq> k'"
  have less: "False" if a: "polled st n i" and b: "polled st n j" and lt: "i < j" for i j
  proof -
    have "st (guard_read n i) \<noteq> WL_CONNECTED"
      using b lt by (simp add: polled_def list_all_iff)
    moreover have "i \<noteq> MAX_CONNECTION_ATTEMPTS"
      using b lt by (simp add: polled_def)
    ultimately show False using a by (simp add: polled_def)
  qed
  from ne have "k < k' \<or> k' < k" by auto
  then show False using less [OF p p'] less [OF p' p] by blast
qed

lemma follows_unique:
  "follows st n ks c \<Longrightarrow> follows st n ks' c' \<Longrightarrow>
   (\<not> c \<longrightarrow> length ks = m) \<Longrightarrow> (\<not> c' \<longrightarrow> length ks' = m) \<Longrightarrow>
   length ks \<le> m \<Longrightarrow> length ks' \<le> m \<Longrightarrow> ks = ks' \<and> c = c'"
proof (induction st n ks c arbitrary: ks' m rule: follows.induct)
  case (1 st n connected)
  then show ?case by simp
next
  case (2 st n k connected)
  show ?case
  proof (cases ks')
    case Nil
    then show ?thesis using "2.prems"(2) by simp
  next
    case (Cons j js)
    show ?thesis
    proof (cases js)
      case Nil
      then show ?thesis
        using "2.prems"(1,2) Cons polled_unique [of st n k j] by auto
    next
      case (Cons j' js')
      have "polled st n j" and nc: "st (check_read n j) \<noteq> WL_CONNECTED"
        using "2.prems"(2) \<open>ks' = j # js\<close> Cons by simp_all
      then have "k = j" using "2.prems"(1) polled_unique [of st n k j] by simp
      then have "\<not> connected" using "2.prems"(1) nc by simp
      then have "m = 1" using "2.prems"(3) by simp
      then show ?thesis using "2.prems"(6) \<open>ks' = j # js\<close> Cons by simp
    qed
  qed
next
  case (3 st n k k' ks connected)
  have pk: "polled st n k" and nc: "st (check_read n k) \<noteq> WL_CONNECTED"
    and rest: "follows st (check_read n k + 2) (k' # ks) connected"
    using "3.prems"(1) by simp_all
  show ?case
  proof (cases ks')
    case Nil
    then show ?thesis using "3.prems"(2) by simp
  next
    case (Cons j js)
    show ?thesis
    proof (cases js)
      case Nil
      have "polled st n j" and e: "(st (check_read n j) = WL_CONNECTED) = c'"
        using "3.prems"(2) \<open>ks' = j # js\<close> Nil by simp_all
      then have "k = j" using pk polled_unique [of st n k j] by simp
      then have "\<not> c'" using e nc by simp
      then have "m = 1" using "3.prems"(4) \<open>ks' = j # js\<close> Nil by simp
      then show ?thesis using "3.prems"(5) by simp
    next
      case (Cons j' js')
      have pj: "polled st n j"
        and rest': "follows st (check_read n j + 2) (j' # js') c'"
        using "3.prems"(2) \<open>ks' = j # js\<close> Cons by simp_all
      have kj: "k = j" using pk pj polled_unique [of st n k j] by simp
      have "k' # ks = j' # js' \<and> connected = c'"
      proof (rule "3.IH" [of "j' # js'" "m - 1"])
        show "follows st (check_read n k + 2) (k' # ks) connected" by (rule rest)
        show "follows st (check_read n k + 2) (j' # js') c'" using rest' kj by simp
        show "\<not> connected \<longrightarrow> length (k' # ks) = m - 1" using "3.prems"(3) by auto
        show "\<not> c' \<longrightarrow> length (j' # js') = m - 1"
          using "3.prems"(4) \<open>ks' = j # js\<close> Cons by auto
        show "length (k' # ks) \<le> m - 1" using "3.prems"(5) by simp
        show "length (j' # js') \<le> m - 1" using "3.prems"(6) \<open>ks' = j # js\<close> Cons by simp
      qed
      then show ?thesis using kj \<open>ks' = j # js\<close> Cons by simp
    qed
  qed
qed

lemma setupWiFi_follows:
  "\<exists>ks. ks \<noteq> [] \<and> length ks \<le> MAX_FULL_CONNECTION_ATTEMPTS
     \<and> (\<forall>k \<in> set ks. k \<le> MAX_CONNECTION_ATTEMPTS)
     \<and> follows st (statusReads w) ks (wifiMode (setupWiFi st ss pw rnd ap w) = WIFI_MODE_STA)
     \<and> (wifiMode (setupWiFi st ss pw rnd ap w) = WIFI_MODE_STA
          \<and> st (statusReads (setupWiFi st ss pw rnd ap w) - 1) = WL_CONNECTED
          \<and> calls (setupWiFi st ss pw rnd ap w)
               = calls w @ [WiFiMode WIFI_MODE_STA, Delay 100] @ cycles_calls ss pw ks
          \<and> serverStarted (setupWiFi st ss pw rnd ap w) = serverStarted w
        \<or> wifiMode (setupWiFi st ss pw rnd ap w) = WIFI_MODE_AP
          \<and> length ks = MAX_FULL_CONNECTION_ATTEMPTS
          \<and> calls (setupWiFi st ss pw rnd ap w)
               = calls w @ [WiFiMode WIFI_MODE_STA, Delay 100] @ cycles_calls ss pw ks
                   @ fallback_calls rnd ap
          \<and> serverStarted (setupWiFi st ss pw rnd ap w))"
proof -
  define w0 where "w0 = call [WiFiMode WIFI_MODE_STA, Delay 100] (w\<lparr>wifiMode := WIFI_MODE_STA\<rparr>)"
  define r where "r = connect_cycles st ss pw 0 w0"
  have w0: "calls w0 = calls w @ [WiFiMode WIFI_MODE_STA, Delay 100]"
    "wifiMode w0 = WIFI_MODE_STA" "serverStarted w0 = serverStarted w"
    "statusReads w0 = statusReads w"
    by (simp_all add: w0_def call_def)
  have unf: "setupWiFi st ss pw rnd ap w = (if fst r then snd r else setupWebServer (setupAP rnd ap (snd r)))"
    by (simp add: setupWiFi_def r_def w0_def Let_def)
  have lt: "0 < MAX_FULL_CONNECTION_ATTEMPTS"
    by (simp add: MAX_FULL_CONNECTION_ATTEMPTS_def)
  have "\<exists>ks. length ks \<le> MAX_FULL_CONNECTION_ATTEMPTS - 0
     \<and> ks \<noteq> []
     \<and> (\<forall>k \<in> set ks. k \<le> MAX_CONNECTION_ATTEMPTS)
     \<and> follows st (statusReads w0) ks (fst r)
     \<and> calls (snd r) = calls w0 @ cycles_calls ss pw ks
     \<and> wifiMode (snd r) = wifiMode w0
     \<and> serverStarted (snd r) = serverStarted w0
     \<and> (fst r \<longrightarrow> st (statusReads (snd r) - 1) = WL_CONNECTED)
     \<and> (\<not> fst r \<longrightarrow> length ks = MAX_FULL_CONNECTION_ATTEMPTS - 0)"
    unfolding r_def by (rule connect_cycles_follows [OF lt])
  then obtain ks where ks: "length ks \<le> MAX_FULL_CONNECTION_ATTEMPTS"
     "ks \<noteq> []"
     "\<forall>k \<in> set ks. k \<le> MAX_CONNECTION_ATTEMPTS"
     "follows st (statusReads w) ks (fst r)"
     "calls (snd r) = calls w0 @ cycles_calls ss pw ks"
     "wifiMode (snd r) = wifiMode w0"
     "serverStarted (snd r) = serverStarted w0"
     "fst r \<longrightarrow> st (statusReads (snd r) - 1) = WL_CONNECTED"
     "\<not> fst r \<longrightarrow> length ks = MAX_FULL_CONNECTION_ATTEMPTS"
    by (auto simp: w0)
  show ?thesis
  proof (cases "fst r")
    case True
    then have "setupWiFi st ss pw rnd ap w = snd r" by (simp add: unf)
    then show ?thesis
      using True ks w0 by (intro exI [of _ ks]) simp
  next
    case False
    then have "setupWiFi st ss pw rnd ap w = setupWebServer (setupAP rnd ap (snd r))"
      by (simp add: unf)
    then show ?thesis
      using False ks w0 by (intro exI [of _ ks]) (simp add: setupAP_simps)
  qed
qed

lemma guard_read_eq: "guard_read n a = n + a + (a + 2) div 3"
proof (induction a)
  case 0
  then show ?case by simp
next
  case (Suc a)
  have "(Suc a + 2) div 3 = (a + 2) div 3 + (if a mod 3 = 0 then 1 else 0)"
    by presburger
  then show ?case using Suc by simp
qed

lemma late_network_follows: "follows late_network 0 [10, 2] True"
  by (auto simp add: polled_def check_read_def guard_read_eq late_network_def
      MAX_CONNECTION_ATTEMPTS_def list_all_iff)

text \<open>
  C6. \<^verbatim>\<open>setupWiFi\<close> switches to station mode and then runs at least one and at most
  \<^verbatim>\<open>MAX_FULL_CONNECTION_ATTEMPTS\<close> (3) connection cycles, separated by a back-off. Each cycle
  disconnects, begins a fresh connection and then polls: at most
  \<^verbatim>\<open>MAX_CONNECTION_ATTEMPTS\<close> (10) passes of the inner loop, each a wait of
  \<^verbatim>\<open>CONNECTION_RETRY_DELAY\<close>, ended by the first loop condition that reads
  \<^verbatim>\<open>WL_CONNECTED\<close>. The cycles follow the status reads: the function returns in the first
  cycle whose check of line 304 reads \<^verbatim>\<open>WL_CONNECTED\<close>, in station mode, with nothing
  done after the polls of that cycle and the web server left as it was; it runs a further
  cycle only after a check that did not read \<^verbatim>\<open>WL_CONNECTED\<close>. It ends in access-point
  mode, with the calls of \<^verbatim>\<open>setupAP\<close> and \<^verbatim>\<open>setupWebServer\<close> made and the web server
  started, exactly when the checks of all three cycles failed. So the status reads
  determine the outcome and the polls of every cycle. When the status is \<^verbatim>\<open>WL_CONNECTED\<close>
  from the first read on, the function returns after one cycle without a single poll.
\<close>

theorem setupWiFi_bounded_retry:
  "(\<exists>ks. ks \<noteq> [] \<and> length ks \<le> MAX_FULL_CONNECTION_ATTEMPTS
     \<and> (\<forall>k \<in> set ks. k \<le> MAX_CONNECTION_ATTEMPTS)
     \<and> follows st (statusReads w) ks (wifiMode (setupWiFi st ss pw rnd ap w) = WIFI_MODE_STA)
     \<and> (wifiMode (setupWiFi st ss pw rnd ap w) = WIFI_MODE_STA
          \<and> st (statusReads (setupWiFi st ss pw rnd ap w) - 1) = WL_CONNECTED
          \<and> calls (setupWiFi st ss pw rnd ap w)
               = calls w @ [WiFiMode WIFI_MODE_STA, Delay 100] @ cycles_calls ss pw ks
          \<and> serverStarted (setupWiFi st ss pw rnd ap w) = serverStarted w
        \<or> wifiMode (setupWiFi st ss pw rnd ap w) = WIFI_MODE_AP
          \<and> length ks = MAX_FULL_CONNECTION_ATTEMPTS
          \<and> calls (setupWiFi st ss pw rnd ap w)
               = calls w @ [WiFiMode WIFI_MODE_STA, Delay 100] @ cycles_calls ss pw ks
                   @ fallback_calls rnd ap
          \<and> serverStarted (setupWiFi st ss pw rnd ap w)))
   \<and> ((\<forall>n. st n = WL_CONNECTED) \<longrightarrow>
        wifiMode (setupWiFi st ss pw rnd ap w) = WIFI_MODE_STA
        \<and> calls (setupWiFi st ss pw rnd ap w)
             = calls w @ [WiFiMode WIFI_MODE_STA, Delay 100] @ cycle_calls ss pw 0)"
  using setupWiFi_follows [of st w ss pw rnd ap] setupWiFi_connected_at_once [of st ss pw rnd ap w]
  by blast

lemma setupWiFi_connects: "setupWiFi (wifiStatus button_wake) ''Home'' ''secret1'' 4242 True (wifi (power_on home_store))
   = \<lparr>wifiMode = WIFI_MODE_STA, statusReads = 8,
      calls = [WiFiMode WIFI_MODE_STA, Delay 100, WiFiDisconnect False, Delay 1000,
               WiFiBegin ''Home'' ''secret1'', WiFiSetTxPower,
               Delay 1000, Delay 1000, Delay 1000, Delay 1000],
      serverStarted = False\<rparr>"
  by (simp add: setupWiFi_def connect_cycles.simps wait_connected.simps Let_def call_def
      read_status_def WiFi_status_def button_wake_def power_on_def
      MAX_CONNECTION_ATTEMPTS_def MAX_FULL_CONNECTION_ATTEMPTS_def CONNECTION_RETRY_DELAY_def)

lemma setupWiFi_falls_back: "wifiMode (setupWiFi (wifiStatus cold_boot) ''Home'' ''secret1'' 4242 True (wifi (power_on home_store)))
   = WIFI_MODE_AP \<and>
   serverStarted (setupWiFi (wifiStatus cold_boot) ''Home'' ''secret1'' 4242 True (wifi (power_on home_store)))
   \<and> length (filter (\<lambda>c. c = WiFiBegin ''Home'' ''secret1'')
     (calls (setupWiFi (wifiStatus cold_boot) ''Home'' ''secret1'' 4242 True (wifi (power_on home_store))))) = 3"
  by (simp add: setupWiFi_def connect_cycles.simps wait_connected.simps Let_def call_def
      read_status_def WiFi_status_def cold_boot_def power_on_def
      setupAP_def setupWebServer_def
      MAX_CONNECTION_ATTEMPTS_def MAX_FULL_CONNECTION_ATTEMPTS_def CONNECTION_RETRY_DELAY_def)

text \<open>
  With the network in reach from the twenty-first status read on, the theorem leaves one
  outcome: ten polls in the first cycle, two in the second, and a return in station
  mode.
\<close>

theorem setupWiFi_bounded_retry_witness:
  "follows late_network 0 [10, 2] True
   \<and> wifiMode (setupWiFi late_network ''Home'' ''secret1'' 4242 True (wifi (power_on home_store)))
       = WIFI_MODE_STA
   \<and> calls (setupWiFi late_network ''Home'' ''secret1'' 4242 True (wifi (power_on home_store)))
       = [WiFiMode WIFI_MODE_STA, Delay 100] @ cycles_calls ''Home'' ''secret1'' [10, 2]
   \<and> calls (setupWiFi (wifiStatus button_wake) ''Home'' ''secret1'' 4242 True (wifi (power_on home_store)))
     = [WiFiMode WIFI_MODE_STA, Delay 100, WiFiDisconnect False, Delay 1000,
        WiFiBegin ''Home'' ''secret1'', WiFiSetTxPower,
        Delay 1000, Delay 1000, Delay 1000, Delay 1000]
   \<and> wifiMode (setupWiFi (wifiStatus cold_boot) ''Home'' ''secret1'' 4242 True
         (wifi (power_on home_store))) = WIFI_MODE_AP
   \<and> serverStarted (setupWiFi (wifiStatus cold_boot) ''Home'' ''secret1'' 4242 True
         (wifi (power_on home_store)))
   \<and> length (filter (\<lambda>c. c = WiFiBegin ''Home'' ''secret1'')
         (calls (setupWiFi (wifiStatus cold_boot) ''Home'' ''secret1'' 4242 True
           (wifi (power_on home_store))))) = 3"
proof -
  let ?hw = "wifi (power_on home_store)"
  let ?res = "setupWiFi late_network ''Home'' ''secret1'' 4242 True ?hw"
  have z: "statusReads ?hw = 0" "calls ?hw = []"
    by (simp_all add: power_on_def)
  from setupWiFi_bounded_retry [of late_network ?hw "''Home''" "''secret1''" 4242 True]
  obtain ks where ks: "length ks \<le> MAX_FULL_CONNECTION_ATTEMPTS"
    "follows late_network 0 ks (wifiMode ?res = WIFI_MODE_STA)"
    "wifiMode ?res = WIFI_MODE_STA
       \<and> calls ?res = [WiFiMode WIFI_MODE_STA, Delay 100] @ cycles_calls ''Home'' ''secret1'' ks
     \<or> wifiMode ?res = WIFI_MODE_AP \<and> length ks = MAX_FULL_CONNECTION_ATTEMPTS"
    unfolding z by auto
  have n: "\<not> wifiMode ?res = WIFI_MODE_STA \<longrightarrow> length ks = MAX_FULL_CONNECTION_ATTEMPTS"
    using ks(3) by blast
  have "ks = [10, 2] \<and> (wifiMode ?res = WIFI_MODE_STA) = True"
    using follows_unique [OF ks(2) late_network_follows n _ ks(1)]
    by (simp add: MAX_FULL_CONNECTION_ATTEMPTS_def)
  then have a: "wifiMode ?res = WIFI_MODE_STA"
    and b: "calls ?res = [WiFiMode WIFI_MODE_STA, Delay 100] @ cycles_calls ''Home'' ''secret1'' [10, 2]"
    using ks(3) by auto
  show ?thesis
    using a b late_network_follows setupWiFi_connects setupWiFi_falls_back by simp
qed

section \<open>Machine words\<close>

lemma sint_eq_unat32: "unat (w :: 32 word) < 2 ^ 31 \<Longrightarrow> sint w = int (unat w)"
proof -
  assume a: "unat w < 2 ^ 31"
  have "int (unat w) < int (2 ^ 31)" using a by (simp only: of_nat_less_iff)
  then have lt: "uint w < 2 ^ 31" by simp
  have "(0::int) \<le> 2 ^ 31" by simp
  with uint_ge_0 [of w] have ge: "- (2 ^ 31) \<le> uint w" by linarith
  have "signed_take_bit 31 (uint w) = uint w"
    using ge lt by (rule signed_take_bit_int_eq_self)
  then show ?thesis by (simp add: sint_uint)
qed

lemma sint_nonneg_of_unat: "unat (w :: 32 word) < 2 ^ 31 \<Longrightarrow> 0 \<le> sint w"
  by (simp add: sint_eq_unat32)

lemma unat_inc: "unat (w + 1 :: 32 word) \<le> unat w + 1"
  by (metis (mono_tags, lifting) of_nat_add of_nat_le_iff of_nat_unat
    uint_add_le unsigned_1)

lemma unat_inc_eq: "unat (w :: 32 word) < 2 ^ 31 \<Longrightarrow> unat (w + 1) = unat w + 1"
proof -
  assume "unat w < 2 ^ 31"
  then have "unat w + unat (1 :: 32 word) < 2 ^ LENGTH(32)" by simp
  then have "unat (w + 1) = unat w + unat (1 :: 32 word)" by (simp only: unat_add_lem)
  then show ?thesis by simp
qed

lemma inc_ne0: "unat (w :: 32 word) < 2 ^ 31 \<Longrightarrow> w + 1 \<noteq> 0"
proof
  assume a: "unat w < 2 ^ 31" and z: "w + 1 = 0"
  from unat_inc_eq [OF a] z show False by simp
qed

lemma dec_le: "(w :: 32 word) \<noteq> 0 \<Longrightarrow> unat (w - 1) \<le> unat w"
  by (simp add: unat_minus_one)

section \<open>Invariants of the machine\<close>

lemma setupDevice_globals:
  "requestInProgress (setupDevice b prefs) = False"
  "interruptAttached (setupDevice b prefs) = True"
  "configSaved (setupDevice b prefs) = False"
  "lastButtonPressTime (setupDevice b prefs) = 0"
  "pendingRequests (setupDevice b prefs)
     = (if wakeup_reason b = ESP_SLEEP_WAKEUP_GPIO then 1 else 0)"
  by (simp_all add: setupDevice_def Let_def load_config_def power_on_def)

lemma handleClient_frame:
  "requestInProgress (handleClient t cl s) = requestInProgress s"
  "pendingRequests (handleClient t cl s) = pendingRequests s"
  "wifi (handleClient t cl s) = wifi s"
  "interruptAttached (handleClient t cl s) = interruptAttached s"
  by (simp_all add: handleClient_def handleRoot_def handleSave_def handleNotFound_def
      split: option.splits)

lemma buttonISR_frame:
  "requestInProgress (buttonISR t s) = requestInProgress s"
  "wifi (buttonISR t s) = wifi s"
  "interruptAttached (buttonISR t s) = interruptAttached s"
  by (simp_all add: buttonISR_def)

lemma flight_main_step:
  "requestInProgress (glob c) = in_flight (pc c) \<Longrightarrow>
     requestInProgress (glob (main_step e c)) = in_flight (pc (main_step e c))"
  by (cases "pc c")
     (simp_all add: main_step_def Let_def goto_def in_flight_def handleClient_frame)

lemma flight_step:
  "requestInProgress (glob c) = in_flight (pc c) \<Longrightarrow>
     requestInProgress (glob (step e c)) = in_flight (pc (step e c))"
  by (cases e)
     (simp_all add: flight_main_step buttonISR_frame boot_def setupDevice_globals in_flight_def)

lemma flight_run:
  "requestInProgress (glob c) = in_flight (pc c) \<Longrightarrow>
     requestInProgress (glob (run evs c)) = in_flight (pc (run evs c))"
  by (induction evs arbitrary: c) (simp_all add: flight_step)

lemma flight_reachable:
  "requestInProgress (glob (run evs (boot b prefs))) = in_flight (pc (run evs (boot b prefs)))"
  by (rule flight_run) (simp add: boot_def setupDevice_globals in_flight_def)

text \<open>
  C4. \<^verbatim>\<open>sendWebhookRequest\<close> is called from line 238 only, by the main thread, and sets
  \<^verbatim>\<open>requestInProgress\<close> in its first statement. In every state that a run of interrupts,
  steps of the main thread and reboots reaches from a boot, the flag is true exactly when
  control is inside \<^verbatim>\<open>sendWebhookRequest\<close>, after the assignment of line 557 and before the
  assignment that clears the flag. In particular the flag is false whenever the call of
  line 238 is about to be made: no dispatch starts while another is in flight.
\<close>

theorem single_flight:
  "requestInProgress (glob (run evs (boot b prefs))) = in_flight (pc (run evs (boot b prefs)))"
  by (rule flight_reachable)

lemma mode_main_step:
  assumes "station_only (pc c) \<longrightarrow> wifiMode (wifi (glob c)) = WIFI_MODE_STA"
    and "pc c = L217 \<or> pc c = L230 \<longrightarrow> currentMode c = wifiMode (wifi (glob c))"
  shows "(station_only (pc (main_step e c)) \<longrightarrow> wifiMode (wifi (glob (main_step e c))) = WIFI_MODE_STA)
    \<and> (pc (main_step e c) = L217 \<or> pc (main_step e c) = L230 \<longrightarrow>
          currentMode (main_step e c) = wifiMode (wifi (glob (main_step e c))))"
  using assms
  by (cases "pc c")
     (simp_all add: main_step_def Let_def goto_def station_only_def in_flight_def sleep_path_def
        sleeping_def handleClient_frame)

lemma mode_step:
  assumes "station_only (pc c) \<longrightarrow> wifiMode (wifi (glob c)) = WIFI_MODE_STA"
    and "pc c = L217 \<or> pc c = L230 \<longrightarrow> currentMode c = wifiMode (wifi (glob c))"
  shows "(station_only (pc (step e c)) \<longrightarrow> wifiMode (wifi (glob (step e c))) = WIFI_MODE_STA)
    \<and> (pc (step e c) = L217 \<or> pc (step e c) = L230 \<longrightarrow>
          currentMode (step e c) = wifiMode (wifi (glob (step e c))))"
proof (cases e)
  case (Irq t)
  then show ?thesis using assms by (simp add: buttonISR_frame)
next
  case (Tick x)
  then show ?thesis using mode_main_step [OF assms] by simp
next
  case (Boot b)
  then show ?thesis using assms
    by (simp add: boot_def station_only_def in_flight_def sleep_path_def sleeping_def)
qed

lemma mode_run:
  "(station_only (pc c) \<longrightarrow> wifiMode (wifi (glob c)) = WIFI_MODE_STA) \<Longrightarrow>
   (pc c = L217 \<or> pc c = L230 \<longrightarrow> currentMode c = wifiMode (wifi (glob c))) \<Longrightarrow>
   (station_only (pc (run evs c)) \<longrightarrow> wifiMode (wifi (glob (run evs c))) = WIFI_MODE_STA)"
proof (induction evs arbitrary: c)
  case Nil
  then show ?case by simp
next
  case (Cons e evs)
  from mode_step [OF Cons.prems, of e]
  show ?case by (simp add: Cons.IH)
qed

lemma sleep_path_station: "sleep_path l \<Longrightarrow> station_only l"
  by (simp add: station_only_def)

lemma sleeping_sleep_path: "sleeping l \<Longrightarrow> sleep_path l"
  by (simp add: sleep_path_def)

lemma boot_not_station: "\<not> station_only (pc (boot b prefs))"
  by (simp add: boot_def station_only_def in_flight_def sleep_path_def sleeping_def)

lemma station_mode_reachable:
  "station_only (pc (run evs (boot b prefs))) \<longrightarrow>
      wifiMode (wifi (glob (run evs (boot b prefs)))) = WIFI_MODE_STA"
proof (rule mode_run)
  show "station_only (pc (boot b prefs)) \<longrightarrow> wifiMode (wifi (glob (boot b prefs))) = WIFI_MODE_STA"
    using boot_not_station by simp
  show "pc (boot b prefs) = L217 \<or> pc (boot b prefs) = L230 \<longrightarrow>
      currentMode (boot b prefs) = wifiMode (wifi (glob (boot b prefs)))"
    by (simp add: boot_def)
qed

text \<open>
  C2. In every state reached from a boot in which the radio is in access-point mode,
  control is neither on the sleep path of lines 247-250 nor in \<^verbatim>\<open>goToSleep\<close>, and the
  device is not asleep, whatever the clock values, the pending counter and the timestamps
  of the run are.
\<close>

theorem access_point_never_sleeps:
  "wifiMode (wifi (glob (run evs (boot b prefs)))) = WIFI_MODE_AP \<longrightarrow>
     \<not> sleep_path (pc (run evs (boot b prefs))) \<and> \<not> sleeping (pc (run evs (boot b prefs)))"
proof
  assume ap: "wifiMode (wifi (glob (run evs (boot b prefs)))) = WIFI_MODE_AP"
  have "\<not> station_only (pc (run evs (boot b prefs)))"
    using station_mode_reachable [of evs b prefs] ap by auto
  then have "\<not> sleep_path (pc (run evs (boot b prefs)))"
    using sleep_path_station by blast
  then show "\<not> sleep_path (pc (run evs (boot b prefs))) \<and> \<not> sleeping (pc (run evs (boot b prefs)))"
    using sleeping_sleep_path by blast
qed

lemma no_sleep_main_step:
  "0 <s pendingRequests (glob c) \<or> requestInProgress (glob c) \<Longrightarrow> \<not> sleep_path (pc c) \<Longrightarrow>
     \<not> sleep_path (pc (main_step x c))"
  by (cases "pc c")
     (auto simp add: main_step_def Let_def goto_def sleep_path_def sleeping_def)

lemma guard_blocks:
  "0 <s pendingRequests (glob c) \<or> requestInProgress (glob c) \<Longrightarrow> pc c = L246 \<Longrightarrow>
     pc (main_step x c) = L256 \<and> pc (main_step y (main_step x c)) = L215"
  by (auto simp add: main_step_def Let_def goto_def)

text \<open>
  The guard of line 246. From a state in which \<^verbatim>\<open>pendingRequests > 0\<close> or
  \<^verbatim>\<open>requestInProgress\<close> holds and control is not yet on the sleep path, no step enters the
  sleep path, whatever the event and the clock value it carries; at the guard such a
  state goes to the end of the iteration. Control is never on the sleep path while
  \<^verbatim>\<open>requestInProgress\<close> holds.
\<close>

lemma guard_keeps_awake:
  assumes "0 <s pendingRequests (glob c) \<or> requestInProgress (glob c)"
    and "\<not> sleep_path (pc c)"
  shows "\<not> sleep_path (pc (step e c))
     \<and> (pc c = L246 \<longrightarrow> pc (main_step x c) = L256 \<and> pc (main_step y (main_step x c)) = L215)
     \<and> (requestInProgress (glob (run evs (boot b prefs))) \<longrightarrow>
          \<not> sleep_path (pc (run evs (boot b prefs))))"
proof -
  have "\<not> sleep_path (pc (step e c))"
  proof (cases e)
    case (Irq t)
    then show ?thesis using assms(2) by simp
  next
    case (Tick x)
    then show ?thesis using no_sleep_main_step [OF assms] by simp
  next
    case (Boot b)
    then show ?thesis using assms(2) by (simp add: boot_def sleep_path_def sleeping_def)
  qed
  moreover have "requestInProgress (glob (run evs (boot b prefs))) \<longrightarrow>
          \<not> sleep_path (pc (run evs (boot b prefs)))"
    using flight_reachable [of evs b prefs]
    by (auto simp: in_flight_def sleep_path_def sleeping_def)
  ultimately show ?thesis using guard_blocks [OF assms(1)] by blast
qed

lemma run_append: "run (xs @ ys) c = run ys (run xs c)"
  by (induction xs arbitrary: c) simp_all

lemma sless_0_ne: "0 <s (w :: 32 word) \<Longrightarrow> w \<noteq> 0"
  by auto

lemma pending_main_step:
  assumes "unat (pendingRequests (glob c)) \<le> n"
    and "pc c = L235 \<longrightarrow> pendingRequests (glob c) \<noteq> 0"
    and "pc c = L235_store \<longrightarrow> tmp c \<noteq> 0 \<and> unat (tmp c) \<le> n"
  shows "unat (pendingRequests (glob (main_step e c))) \<le> n
    \<and> (pc (main_step e c) = L235 \<longrightarrow> pendingRequests (glob (main_step e c)) \<noteq> 0)
    \<and> (pc (main_step e c) = L235_store \<longrightarrow>
          tmp (main_step e c) \<noteq> 0 \<and> unat (tmp (main_step e c)) \<le> n)"
proof (cases "pc c = L235_store")
  case True
  then have "tmp c \<noteq> 0" and "unat (tmp c) \<le> n" using assms(3) by simp_all
  then have "unat (tmp c - 1) \<le> n" using dec_le [of "tmp c"] by simp
  then show ?thesis using True by (simp add: main_step_def Let_def)
next
  case False
  then show ?thesis
    using assms(1,2)
    by (cases "pc c")
       (auto simp add: main_step_def Let_def goto_def handleClient_frame dest: sless_0_ne)
qed

lemma pending_step:
  assumes "unat (pendingRequests (glob c)) \<le> n"
    and "pc c = L235 \<longrightarrow> pendingRequests (glob c) \<noteq> 0"
    and "pc c = L235_store \<longrightarrow> tmp c \<noteq> 0 \<and> unat (tmp c) \<le> n"
    and "1 \<le> n" and "n + irqs [e] < 2 ^ 31"
  shows "unat (pendingRequests (glob (step e c))) \<le> n + irqs [e]
    \<and> (pc (step e c) = L235 \<longrightarrow> pendingRequests (glob (step e c)) \<noteq> 0)
    \<and> (pc (step e c) = L235_store \<longrightarrow>
          tmp (step e c) \<noteq> 0 \<and> unat (tmp (step e c)) \<le> n + irqs [e])"
proof (cases e)
  case (Irq t)
  have lt: "unat (pendingRequests (glob c)) < 2 ^ 31"
    using assms(1,5) by simp
  have "unat (pendingRequests (glob c) + 1) \<le> n + 1"
    using unat_inc [of "pendingRequests (glob c)"] assms(1) by simp
  moreover have "pendingRequests (glob c) + 1 \<noteq> 0"
    using inc_ne0 [OF lt] .
  ultimately show ?thesis
    using Irq assms(1,2,3) by (auto simp add: buttonISR_def)
next
  case (Tick x)
  then show ?thesis using pending_main_step [OF assms(1,2,3), of x] by simp
next
  case (Boot b)
  then show ?thesis using assms(1,2,3,4)
    by (auto simp add: boot_def setupDevice_globals)
qed

lemma pending_run:
  "unat (pendingRequests (glob c)) \<le> n \<Longrightarrow>
   (pc c = L235 \<longrightarrow> pendingRequests (glob c) \<noteq> 0) \<Longrightarrow>
   (pc c = L235_store \<longrightarrow> tmp c \<noteq> 0 \<and> unat (tmp c) \<le> n) \<Longrightarrow>
   1 \<le> n \<Longrightarrow> n + irqs evs < 2 ^ 31 \<Longrightarrow>
   unat (pendingRequests (glob (run evs c))) \<le> n + irqs evs
    \<and> (pc (run evs c) = L235_store \<longrightarrow>
          tmp (run evs c) \<noteq> 0 \<and> unat (tmp (run evs c)) \<le> n + irqs evs)"
proof (induction evs arbitrary: c n)
  case Nil
  then show ?case by simp
next
  case (Cons e evs)
  have split: "irqs (e # evs) = irqs [e] + irqs evs"
    by (simp split: event.splits)
  have b: "n + irqs [e] < 2 ^ 31" using Cons.prems(5) split by simp
  note S = pending_step [OF Cons.prems(1,2,3,4) b]
  have "unat (pendingRequests (glob (run evs (step e c)))) \<le> (n + irqs [e]) + irqs evs
    \<and> (pc (run evs (step e c)) = L235_store \<longrightarrow>
          tmp (run evs (step e c)) \<noteq> 0 \<and> unat (tmp (run evs (step e c))) \<le> (n + irqs [e]) + irqs evs)"
  proof (rule Cons.IH)
    show "unat (pendingRequests (glob (step e c))) \<le> n + irqs [e]" using S by blast
    show "pc (step e c) = L235 \<longrightarrow> pendingRequests (glob (step e c)) \<noteq> 0" using S by blast
    show "pc (step e c) = L235_store \<longrightarrow>
          tmp (step e c) \<noteq> 0 \<and> unat (tmp (step e c)) \<le> n + irqs [e]" using S by blast
    show "1 \<le> n + irqs [e]" using Cons.prems(4) by simp
    show "n + irqs [e] + irqs evs < 2 ^ 31" using Cons.prems(5) split by simp
  qed
  then show ?case using split by (simp add: add.assoc)
qed

lemma pending_reachable:
  assumes "irqs evs + 1 < 2 ^ 31"
  shows "unat (pendingRequests (glob (run evs (boot b prefs)))) \<le> irqs evs + 1
    \<and> (pc (run evs (boot b prefs)) = L235_store \<longrightarrow>
          tmp (run evs (boot b prefs)) \<noteq> 0 \<and> unat (tmp (run evs (boot b prefs))) \<le> irqs evs + 1)"
proof -
  have "unat (pendingRequests (glob (run evs (boot b prefs)))) \<le> 1 + irqs evs
    \<and> (pc (run evs (boot b prefs)) = L235_store \<longrightarrow>
          tmp (run evs (boot b prefs)) \<noteq> 0 \<and> unat (tmp (run evs (boot b prefs))) \<le> 1 + irqs evs)"
  proof (rule pending_run)
    show "unat (pendingRequests (glob (boot b prefs))) \<le> 1"
      by (simp add: boot_def setupDevice_globals)
    show "pc (boot b prefs) = L235 \<longrightarrow> pendingRequests (glob (boot b prefs)) \<noteq> 0"
      by (simp add: boot_def)
    show "pc (boot b prefs) = L235_store \<longrightarrow>
        tmp (boot b prefs) \<noteq> 0 \<and> unat (tmp (boot b prefs)) \<le> 1"
      by (simp add: boot_def)
    show "(1::nat) \<le> 1" by simp
    show "1 + irqs evs < 2 ^ 31" using assms by simp
  qed
  then show ?thesis by (simp add: add.commute)
qed

text \<open>
  C5, as amended. In every state reached from a boot by a run with fewer than
  \<open>2^31 - 1\<close> button interrupts, \<^verbatim>\<open>pendingRequests\<close> is non-negative, and the value that
  line 235 has loaded and is about to decrement is strictly positive, so that the
  decrement never stores a negative value.
\<close>

theorem pending_nonnegative:
  assumes "irqs evs + 1 < 2 ^ 31"
  shows "0 \<le> sint (pendingRequests (glob (run evs (boot b prefs))))
    \<and> (pc (run evs (boot b prefs)) = L235_store \<longrightarrow>
          0 <s tmp (run evs (boot b prefs))
          \<and> 0 \<le> sint (tmp (run evs (boot b prefs)) - 1))"
proof -
  note P = pending_reachable [OF assms, of b prefs]
  have "unat (pendingRequests (glob (run evs (boot b prefs)))) < 2 ^ 31"
    using P assms by linarith
  then have a: "0 \<le> sint (pendingRequests (glob (run evs (boot b prefs))))"
    by (rule sint_nonneg_of_unat)
  have b: "0 <s tmp (run evs (boot b prefs)) \<and> 0 \<le> sint (tmp (run evs (boot b prefs)) - 1)"
    if pc: "pc (run evs (boot b prefs)) = L235_store"
  proof -
    let ?t = "tmp (run evs (boot b prefs))"
    have ne: "?t \<noteq> 0" and le: "unat ?t \<le> irqs evs + 1" using P pc by simp_all
    have lt: "unat ?t < 2 ^ 31" using le assms by linarith
    have "sint ?t = int (unat ?t)" using lt by (rule sint_eq_unat32)
    moreover have "0 < unat ?t" using ne by (simp add: unat_gt_0)
    ultimately have "0 < sint ?t" by linarith
    then have p: "0 <s ?t" by (simp add: word_sless_alt)
    have "unat (?t - 1) < 2 ^ 31" using dec_le [OF ne] lt by linarith
    then have "0 \<le> sint (?t - 1)" by (rule sint_nonneg_of_unat)
    with p show ?thesis by simp
  qed
  show ?thesis using a b by blast
qed

section \<open>Concrete runs\<close>

lemmas eval_defs = setupDevice_def load_config_def power_on_def getString_def
  home_store_def empty_store_def button_wake_def cold_boot_def idle_boot_def
  setupWiFi_def connect_cycles.simps wait_connected.simps Let_def call_def
  read_status_def WiFi_status_def setupAP_def setupWebServer_def
  MAX_CONNECTION_ATTEMPTS_def MAX_FULL_CONNECTION_ATTEMPTS_def CONNECTION_RETRY_DELAY_def
  trim_def isspace_def

lemmas run_defs = tick_at_def main_step_def goto_def buttonISR_def halted_def
  DEBOUNCE_TIME_def SLEEP_TIMEOUT_def boot_def word_sless_alt

lemma at_store:
  "pc (run to_store (boot button_wake home_store)) = L235_store
   \<and> tmp (run to_store (boot button_wake home_store)) = 2
   \<and> pendingRequests (glob (run to_store (boot button_wake home_store))) = 2"
  by (simp add: to_store_def run_defs eval_defs)

lemma at_flight:
  "pc (run to_flight (boot button_wake home_store)) = S558
   \<and> requestInProgress (glob (run to_flight (boot button_wake home_store)))"
  by (simp add: to_flight_def to_store_def run_defs eval_defs)

lemma at_guard:
  "pc (run to_guard (boot button_wake home_store)) = L246
   \<and> pendingRequests (glob (run to_guard (boot button_wake home_store))) = 1
   \<and> \<not> requestInProgress (glob (run to_guard (boot button_wake home_store)))
   \<and> lastActivityTime (glob (run to_guard (boot button_wake home_store))) = 6000"
  by (simp add: to_guard_def to_flight_def to_store_def run_defs eval_defs)

lemma after_guard:
  "pc (step (tick_at 4000000) (run to_guard (boot button_wake home_store))) = L256"
  by (simp add: to_guard_def to_flight_def to_store_def run_defs eval_defs)

lemma at_idle:
  "wifiMode (wifi (glob (run idle_ticks (boot cold_boot empty_store)))) = WIFI_MODE_AP
   \<and> pc (run idle_ticks (boot cold_boot empty_store)) = L215"
  by (simp add: idle_ticks_def run_defs eval_defs handleClient_def)

lemma boot_cold_fields:
  "pc (boot cold_boot empty_store) = L215"
  "pendingRequests (glob (boot cold_boot empty_store)) = 0"
  "interruptAttached (glob (boot cold_boot empty_store))"
  "lastButtonPressTime (glob (boot cold_boot empty_store)) = 0"
  by (simp_all add: boot_def setupDevice_globals cold_boot_def)

lemma presses_state:
  "pc (run (presses n) (boot cold_boot empty_store)) = L215
   \<and> interruptAttached (glob (run (presses n) (boot cold_boot empty_store)))
   \<and> pendingRequests (glob (run (presses n) (boot cold_boot empty_store))) = word_of_nat n
   \<and> lastButtonPressTime (glob (run (presses n) (boot cold_boot empty_store)))
       = (if n = 0 then 0 else 1000 + 301 * word_of_nat n)"
proof (induction n)
  case 0
  then show ?case by (simp add: boot_cold_fields)
next
  case (Suc n)
  let ?c = "run (presses n) (boot cold_boot empty_store)"
  have r: "run (presses (Suc n)) (boot cold_boot empty_store)
      = ?c\<lparr>glob := buttonISR (1000 + 301 * word_of_nat (Suc n)) (glob ?c)\<rparr>"
    using Suc by (simp add: run_append halted_def)
  have acc: "DEBOUNCE_TIME < (1000 + 301 * word_of_nat (Suc n)) - lastButtonPressTime (glob ?c)"
  proof (cases "n = 0")
    case True
    then show ?thesis using Suc by (simp add: DEBOUNCE_TIME_def)
  next
    case False
    then have "lastButtonPressTime (glob ?c) = 1000 + 301 * word_of_nat n" using Suc by simp
    then have e: "(1000 + 301 * word_of_nat (Suc n)) - lastButtonPressTime (glob ?c) = (301 :: 32 word)"
      by (simp add: algebra_simps)
    show ?thesis unfolding e DEBOUNCE_TIME_def by simp
  qed
  show ?case
    unfolding r using Suc acc by (simp add: buttonISR_def)
qed

text \<open>
  C5 as stated fails at the width of \<^verbatim>\<open>int\<close>: nothing bounds the increments of the
  handler, and the \<open>2^31\<close>-th accepted press in access-point mode, where nothing is
  dispatched, wraps the counter to \<open>-2^31\<close>.
\<close>

theorem pending_nonnegative_counterexample:
  "sint (pendingRequests (glob (run (presses (2 ^ 31)) (boot cold_boot empty_store)))) < 0"
proof -
  have "pendingRequests (glob (run (presses (2 ^ 31)) (boot cold_boot empty_store)))
      = (word_of_nat (2 ^ 31) :: 32 word)"
    using presses_state [of "2 ^ 31"] by blast
  then show ?thesis by simp
qed

theorem pending_nonnegative_witness:
  "irqs to_store + 1 < 2 ^ 31
   \<and> pc (run to_store (boot button_wake home_store)) = L235_store
   \<and> tmp (run to_store (boot button_wake home_store)) = 2
   \<and> 0 \<le> sint (pendingRequests (glob (run to_store (boot button_wake home_store))))
   \<and> 0 <s tmp (run to_store (boot button_wake home_store))
   \<and> 0 \<le> sint (tmp (run to_store (boot button_wake home_store)) - 1)"
proof -
  have i: "irqs to_store + 1 < 2 ^ 31"
    by (simp add: to_store_def tick_at_def)
  from pending_nonnegative [OF i, of button_wake home_store] at_store i
  show ?thesis by blast
qed

theorem single_flight_witness:
  "pc (run to_flight (boot button_wake home_store)) = S558
   \<and> in_flight (pc (run to_flight (boot button_wake home_store)))
   \<and> requestInProgress (glob (run to_flight (boot button_wake home_store)))
   \<and> pc (run to_guard (boot button_wake home_store)) = L246
   \<and> \<not> requestInProgress (glob (run to_guard (boot button_wake home_store)))"
proof -
  have "in_flight (pc (run to_flight (boot button_wake home_store)))"
    using at_flight by (simp add: in_flight_def)
  then have "requestInProgress (glob (run to_flight (boot button_wake home_store)))"
    using single_flight [of to_flight button_wake home_store] by simp
  moreover have "\<not> in_flight (pc (run to_guard (boot button_wake home_store)))"
    using at_guard by (simp add: in_flight_def)
  then have "\<not> requestInProgress (glob (run to_guard (boot button_wake home_store)))"
    using single_flight [of to_guard button_wake home_store] by simp
  ultimately show ?thesis
    using at_flight at_guard by (simp add: in_flight_def)
qed

theorem access_point_never_sleeps_witness:
  "wifiMode (wifi (glob (run idle_ticks (boot cold_boot empty_store)))) = WIFI_MODE_AP
   \<and> pc (run idle_ticks (boot cold_boot empty_store)) = L215
   \<and> \<not> sleep_path (pc (run idle_ticks (boot cold_boot empty_store)))
   \<and> \<not> sleeping (pc (run idle_ticks (boot cold_boot empty_store)))"
  using access_point_never_sleeps [of idle_ticks cold_boot empty_store] at_idle
  by blast

lemma guard_keeps_awake_at_guard:
  "0 <s pendingRequests (glob (run to_guard (boot button_wake home_store)))
   \<and> pc (run to_guard (boot button_wake home_store)) = L246
   \<and> SLEEP_TIMEOUT \<le> 4000000 - lastActivityTime (glob (run to_guard (boot button_wake home_store)))
   \<and> \<not> sleep_path (pc (step (tick_at 4000000) (run to_guard (boot button_wake home_store))))
   \<and> pc (step (tick_at 4000000) (run to_guard (boot button_wake home_store))) = L256"
proof -
  let ?c = "run to_guard (boot button_wake home_store)"
  have p: "0 <s pendingRequests (glob ?c) \<or> requestInProgress (glob ?c)"
    using at_guard by (simp add: word_sless_alt)
  have n: "\<not> sleep_path (pc ?c)"
    using at_guard by (simp add: sleep_path_def sleeping_def)
  have t: "SLEEP_TIMEOUT \<le> 4000000 - lastActivityTime (glob ?c)"
    using at_guard by (simp add: SLEEP_TIMEOUT_def)
  from guard_keeps_awake [OF p n, of "tick_at 4000000"]
  have "\<not> sleep_path (pc (step (tick_at 4000000) ?c))" by blast
  then show ?thesis
    using at_guard after_guard t by (simp add: word_sless_alt)
qed

text \<open>
  C1. The claim is that no iteration of the main loop enters sleep while
  \<^verbatim>\<open>pendingRequests > 0\<close> or \<^verbatim>\<open>requestInProgress\<close> holds, whatever time has passed. The
  code tests this once, in the guard of line 246, and leaves the interrupt attached until
  line 625 of \<^verbatim>\<open>goToSleep\<close>. A press in between breaks the claim: after a minute without
  activity the main thread has passed the guard and stands at line 248 with nothing
  pending; the press is counted there, \<^verbatim>\<open>goToSleep\<close> is entered with
  \<^verbatim>\<open>pendingRequests = 1\<close> all the same, and the device is asleep with the request still
  pending.
\<close>

theorem sleep_with_pending_request:
  "pc (run to_sleep_path (boot idle_boot home_store)) = L248
   \<and> pendingRequests (glob (run to_sleep_path (boot idle_boot home_store))) = 0
   \<and> interruptAttached (glob (run to_sleep_path (boot idle_boot home_store)))
   \<and> pc (run (to_sleep_path @ [Irq 61000]) (boot idle_boot home_store)) = L248
   \<and> pendingRequests (glob (run (to_sleep_path @ [Irq 61000]) (boot idle_boot home_store))) = 1
   \<and> pc (run (to_sleep_path @ [Irq 61000, tick_at 61000, tick_at 61000])
         (boot idle_boot home_store)) = G621
   \<and> pendingRequests (glob (run (to_sleep_path @ [Irq 61000, tick_at 61000, tick_at 61000])
         (boot idle_boot home_store))) = 1
   \<and> pc (run late_press (boot idle_boot home_store)) = Asleep
   \<and> pendingRequests (glob (run late_press (boot idle_boot home_store))) = 1"
  by (simp add: late_press_def to_sleep_path_def run_defs eval_defs)
end
